theory Spec2Isabelle
  imports Main "HOL-Library.Word"
begin

unbundle bit_operations_syntax

section \<open>Bytes and little-endian integers\<close>

type_synonym byte = "8 word"

text \<open>
  Go panics are values of the model: every operation that can panic returns
  \<open>panic + 'a\<close>, with \<open>Inl\<close> the panic. \<open>OutOfBounds\<close>, \<open>InvalidSize\<close> and
  \<open>InvalidItemType\<close> are the three explicit \<open>panic(...)\<close> calls of reader.go; the
  others are the runtime panics of slicing, indexing and integer division.
\<close>

datatype panic =
    OutOfBounds
  | InvalidSize
  | InvalidItemType
  | SliceBounds
  | IndexOutOfRange
  | DivideByZero

text \<open>\<open>binary.LittleEndian.PutUintN\<close>: byte \<open>i\<close> is \<open>byte(v >> (8 * i))\<close>.\<close>

fun le_bytes :: "nat \<Rightarrow> 'a::len word \<Rightarrow> byte list" where
  "le_bytes 0 w = []"
| "le_bytes (Suc n) w = ucast w # le_bytes n (drop_bit 8 w)"

text \<open>\<open>binary.LittleEndian.UintN\<close>: \<open>b[0] | b[1] << 8 | ...\<close>.\<close>

fun le_word :: "byte list \<Rightarrow> 'a::len word" where
  "le_word [] = 0"
| "le_word (b # bs) = ucast b OR push_bit 8 (le_word bs)"

text \<open>
  A Go slice expression \<open>xs[lo:hi]\<close> on a slice: it panics unless
  \<open>0 \<le> lo \<le> hi \<le> cap(xs)\<close>, so it can reach past \<open>len(xs)\<close>. A slice is given by
  its elements \<open>xs\<close>, of which there are \<open>len(xs)\<close>, and by \<open>spare\<close>, the elements of
  its backing array from \<open>len(xs)\<close> up to \<open>cap(xs)\<close>. The bounds are already
  converted to \<open>int\<close> by the caller. The result is used for its elements only.
\<close>

definition slice :: "'a list \<Rightarrow> 'a list \<Rightarrow> int \<Rightarrow> int \<Rightarrow> panic + 'a list" where
  "slice xs spare lo hi =
     (if 0 \<le> lo \<and> lo \<le> hi \<and> hi \<le> int (length xs + length spare)
      then Inr (take (nat (hi - lo)) (drop (nat lo) (xs @ spare)))
      else Inl SliceBounds)"

text \<open>\<open>binary.LittleEndian.Uint32(b)\<close> starts with the bounds check \<open>_ = b[3]\<close>.\<close>

definition Uint32 :: "byte list \<Rightarrow> panic + 32 word" where
  "Uint32 b = (if length b < 4 then Inl IndexOutOfRange else Inr (le_word (take 4 b)))"

definition Uint64 :: "byte list \<Rightarrow> panic + 64 word" where
  "Uint64 b = (if length b < 8 then Inl IndexOutOfRange else Inr (le_word (take 8 b)))"

text \<open>
  The builtin \<open>copy(dst, src)\<close> copies \<open>min(len(dst), len(src))\<close> elements and never
  panics; the result is the destination afterwards.
\<close>

definition copy :: "'a list \<Rightarrow> 'a list \<Rightarrow> 'a list" where
  "copy dst src = take (length dst) src @ drop (length src) dst"

section \<open>The partial reader (reader.go)\<close>

text \<open>
  \<open>ReaderSource\<close> holds the slice \<open>payload\<close>: its \<open>len(payload)\<close> bytes, and in
  \<open>spare\<close> the bytes of its backing array beyond them, so that
  \<open>cap(payload) = len(payload) + length spare\<close>.
\<close>

record ReaderSource =
  payload :: "byte list"
  spare :: "byte list"

record ReadPos =
  Offset :: "32 word"
  NextOffset :: "32 word"
  ContainerEnd :: "32 word"

definition Add :: "ReadPos \<Rightarrow> 32 word \<Rightarrow> ReadPos" where
  "Add p localOffset =
     \<lparr>Offset = Offset p + localOffset, NextOffset = 0, ContainerEnd = ContainerEnd p\<rparr>"

definition AddWithNext :: "ReadPos \<Rightarrow> 32 word \<Rightarrow> 32 word \<Rightarrow> ReadPos" where
  "AddWithNext p localOffset localNextOffset =
     \<lparr>Offset = Offset p + localOffset, NextOffset = Offset p + localNextOffset,
      ContainerEnd = ContainerEnd p\<rparr>"

text \<open>
  \<open>r.payload[o : o+4]\<close>: both bounds are \<open>uint32\<close>, so \<open>o + 4\<close> wraps around before
  it is used as a bound.
\<close>

definition offset_at :: "ReaderSource \<Rightarrow> 32 word \<Rightarrow> panic + 32 word" where
  "offset_at r o' =
     (case slice (payload r) (spare r) (uint o') (uint (o' + 4)) of
        Inl p \<Rightarrow> Inl p
      | Inr b \<Rightarrow> Uint32 b)"

definition objectEnd :: "ReaderSource \<Rightarrow> ReadPos \<Rightarrow> panic + 32 word" where
  "objectEnd r pos =
     (if NextOffset pos = 0 then Inr (ContainerEnd pos) else offset_at r (NextOffset pos))"

text \<open>
  \<open>Uint64Reader.Read\<close>: the upper bound is \<open>int(r.pos.Offset)+8\<close>, computed on
  \<open>int\<close>, so it does not wrap.
\<close>

definition Uint64Reader_Read :: "ReaderSource \<Rightarrow> ReadPos \<Rightarrow> panic + 64 word" where
  "Uint64Reader_Read src pos =
     (case slice (payload src) (spare src) (uint (Offset pos)) (uint (Offset pos) + 8) of
        Inl p \<Rightarrow> Inl p
      | Inr data \<Rightarrow> Uint64 data)"

text \<open>
  \<open>ByteArrayReader.Read\<close>: the reader is its position and its declared \<open>Size\<close>
  (an \<open>int\<close>); the result is the caller's slice \<open>v\<close> after the copy.
\<close>

definition ByteArrayReader_Read ::
    "ReaderSource \<Rightarrow> ReadPos \<Rightarrow> int \<Rightarrow> byte list \<Rightarrow> panic + byte list" where
  "ByteArrayReader_Read src pos Size v =
     (if int (length v) \<noteq> Size then Inl InvalidSize
      else case slice (payload src) (spare src) (uint (Offset pos)) (uint (Offset pos) + Size) of
             Inl p \<Rightarrow> Inl p
           | Inr content \<Rightarrow> Inr (copy v content))"

definition DynamicBytesReader_Read ::
    "ReaderSource \<Rightarrow> ReadPos \<Rightarrow> byte list \<Rightarrow> panic + byte list" where
  "DynamicBytesReader_Read src pos v =
     (case offset_at src (Offset pos) of
        Inl p \<Rightarrow> Inl p
      | Inr start \<Rightarrow>
          (case objectEnd src pos of
             Inl p \<Rightarrow> Inl p
           | Inr end' \<Rightarrow>
               (case slice (payload src) (spare src) (uint start) (uint end') of
                  Inl p \<Rightarrow> Inl p
                | Inr content \<Rightarrow> Inr (copy v content))))"

text \<open>
  The prototype of a \<open>ListReader\<close> is inspected by a type switch: it implements
  \<open>StaticReader\<close> (\<open>SizeSSZ() uint32\<close>), or \<open>DynamicReader\<close>
  (\<open>SizeSSZ(fixed bool) uint32\<close>), or neither (as \<open>Uint64Reader\<close> and
  \<open>DynamicBytesReader\<close>, which have no \<open>SizeSSZ\<close> method). No type has both, the
  two methods share a name.
\<close>

datatype Prototype =
    StaticReader "32 word"
  | DynamicReader "bool \<Rightarrow> 32 word"
  | OtherReader

record ListReader =
  Prototype :: Prototype
  pos :: ReadPos

text \<open>Unsigned 32-bit division; Go panics on a zero divisor.\<close>

definition udiv32 :: "32 word \<Rightarrow> 32 word \<Rightarrow> panic + 32 word" where
  "udiv32 a b = (if b = 0 then Inl DivideByZero else Inr (a div b))"

definition ItemSize :: "ListReader \<Rightarrow> panic + 32 word" where
  "ItemSize r =
     (case Prototype r of
        StaticReader sz \<Rightarrow> Inr sz
      | DynamicReader sz \<Rightarrow> Inr (sz False)
      | OtherReader \<Rightarrow> Inl InvalidItemType)"

definition Len :: "ListReader \<Rightarrow> ReaderSource \<Rightarrow> panic + int" where
  "Len r src =
     (case offset_at src (Offset (pos r)) of
        Inl p \<Rightarrow> Inl p
      | Inr start \<Rightarrow>
          (case objectEnd src (pos r) of
             Inl p \<Rightarrow> Inl p
           | Inr end' \<Rightarrow>
               (case ItemSize r of
                  Inl p \<Rightarrow> Inl p
                | Inr itemSize \<Rightarrow>
                    (case udiv32 (end' - start) itemSize of
                       Inl p \<Rightarrow> Inl p
                     | Inr q \<Rightarrow> Inr (uint q)))))"

text \<open>
  \<open>ListReader.Item\<close>. The index \<open>n\<close> is a Go \<open>int\<close>; \<open>uint32(n)\<close> keeps its low 32
  bits, which is \<open>word_of_int\<close>. The result is the \<open>ReadPos\<close> handed to
  \<open>Prototype.InitReaderSSZ\<close>, that is, the position of the child reader.
\<close>

definition Item :: "ListReader \<Rightarrow> ReaderSource \<Rightarrow> int \<Rightarrow> panic + ReadPos" where
  "Item r src n =
     (case offset_at src (Offset (pos r)) of
        Inl p \<Rightarrow> Inl p
      | Inr start \<Rightarrow>
          (case objectEnd src (pos r) of
             Inl p \<Rightarrow> Inl p
           | Inr end' \<Rightarrow>
               if start = end' then Inl OutOfBounds
               else
                 (case Prototype r of
                    StaticReader sz \<Rightarrow>
                      (case udiv32 (end' - start) sz of
                         Inl p \<Rightarrow> Inl p
                       | Inr q \<Rightarrow>
                           if n \<ge> uint q then Inl OutOfBounds
                           else Inr \<lparr>Offset = start + word_of_int n, NextOffset = 0,
                                     ContainerEnd = end'\<rparr>)
                  | DynamicReader sz \<Rightarrow>
                      (case udiv32 (end' - start) (sz False) of
                         Inl p \<Rightarrow> Inl p
                       | Inr q \<Rightarrow>
                           if n \<ge> uint q then Inl OutOfBounds
                           else Inr \<lparr>Offset = start + word_of_int n,
                                     NextOffset = (if n \<le> uint q - 1 then start + 4 else 0),
                                     ContainerEnd = end'\<rparr>)
                  | OtherReader \<Rightarrow>
                      Inr \<lparr>Offset = start + word_of_int n, NextOffset = 0,
                           ContainerEnd = end'\<rparr>)))"

section \<open>The readers of the test types (tests/partial)\<close>

text \<open>
  \<open>VoluntaryExitReader\<close> implements \<open>StaticReader\<close> with \<open>SizeSSZ() = 16\<close>; its
  accessors return \<open>Uint64Reader\<close>s.
\<close>

definition VoluntaryExitReader :: Prototype where
  "VoluntaryExitReader = StaticReader 16"

definition VoluntaryExitReader_Epoch :: "ReadPos \<Rightarrow> ReadPos" where
  "VoluntaryExitReader_Epoch p = Add p 0"

definition VoluntaryExitReader_ValidatorIndex :: "ReadPos \<Rightarrow> ReadPos" where
  "VoluntaryExitReader_ValidatorIndex p = Add p 8"

text \<open>
  \<open>ExecutionPayloadReader\<close>: \<open>ExtraData()\<close> is a \<open>DynamicBytesReader\<close> at
  \<open>AddWithNext(436, 495)\<close>, \<open>Transactions()\<close> a \<open>ListReader[DynamicBytesReader]\<close> at
  \<open>Add(495)\<close>. \<open>DynamicBytesReader\<close> has no \<open>SizeSSZ\<close> method.
\<close>

definition DynamicBytesReader :: Prototype where
  "DynamicBytesReader = OtherReader"

definition ExecutionPayloadReader_ExtraData :: "ReadPos \<Rightarrow> ReadPos" where
  "ExecutionPayloadReader_ExtraData p = AddWithNext p 436 495"

definition ExecutionPayloadReader_Transactions :: "ReadPos \<Rightarrow> ListReader" where
  "ExecutionPayloadReader_Transactions p = \<lparr>Prototype = DynamicBytesReader, pos = Add p 495\<rparr>"

text \<open>The root reader of a payload has \<open>ReadPos = {0, 0, len(payload)}\<close>.\<close>

definition rootPos :: "ReaderSource \<Rightarrow> ReadPos" where
  "rootPos src = \<lparr>Offset = 0, NextOffset = 0, ContainerEnd = of_nat (length (payload src))\<rparr>"

section \<open>The encoder (reader.go, second part)\<close>

text \<open>
  The output sink of streaming mode is an \<open>io.Writer\<close>. The encoder sees of it only
  the error each \<open>Write\<close> returns, so the sink is a script of the answers to the
  coming writes: \<open>None\<close> accepts the whole slice, \<open>Some (k, e)\<close> takes the first
  \<open>k\<close> bytes and returns the error \<open>e\<close>; when the script is used up every write
  succeeds. \<open>accepted\<close> is what the sink has taken so far.
\<close>

datatype error = WriteError nat

record Sink =
  accepted :: "byte list"
  script :: "(nat \<times> error) option list"

definition Write :: "Sink \<Rightarrow> byte list \<Rightarrow> Sink \<times> error option" where
  "Write w p =
     (case script w of
        [] \<Rightarrow> (w\<lparr>accepted := accepted w @ p\<rparr>, None)
      | None # rest \<Rightarrow> (\<lparr>accepted = accepted w @ p, script = rest\<rparr>, None)
      | Some (k, e) # rest \<Rightarrow> (\<lparr>accepted = accepted w @ take k p, script = rest\<rparr>, Some e))"

text \<open>
  The encoder. \<open>outWriter\<close> is \<open>None\<close> for Go's \<open>nil\<close>: buffered mode. In buffered
  mode \<open>outBuffer\<close> is a window into the caller's buffer that every write moves
  forward (\<open>enc.outBuffer = enc.outBuffer[n:]\<close>); \<open>outDone\<close> is the part of the
  caller's buffer the window has left behind, so that the caller's buffer is
  \<open>outDone @ outBuffer\<close>. The scratch array \<open>buf\<close> and the self reference \<open>codec\<close>
  carry no state between calls and are left out.
\<close>

record Encoder =
  outWriter :: "Sink option"
  outBuffer :: "byte list"
  outDone :: "byte list"
  err :: "error option"
  offset :: "32 word"

text \<open>\<open>_, enc.err = enc.outWriter.Write(p)\<close>\<close>

definition stream_write :: "Sink \<Rightarrow> byte list \<Rightarrow> Encoder \<Rightarrow> Encoder" where
  "stream_write w p enc =
     (case Write w p of (w', r) \<Rightarrow> enc\<lparr>outWriter := Some w', err := r\<rparr>)"

text \<open>
  \<open>binary.LittleEndian.PutUintN(enc.outBuffer, v); enc.outBuffer = enc.outBuffer[N/8:]\<close>:
  \<open>PutUintN\<close> panics on a window shorter than the integer.
\<close>

definition buf_put :: "byte list \<Rightarrow> Encoder \<Rightarrow> panic + Encoder" where
  "buf_put bs enc =
     (if length (outBuffer enc) < length bs then Inl IndexOutOfRange
      else Inr (enc\<lparr>outBuffer := drop (length bs) (outBuffer enc),
                     outDone := outDone enc @ bs\<rparr>))"

text \<open>
  \<open>copy(enc.outBuffer, blob); enc.outBuffer = enc.outBuffer[len(blob):]\<close>: the copy
  is cut to the window, and the reslice panics when the blob is longer than it.
\<close>

definition buf_copy :: "byte list \<Rightarrow> Encoder \<Rightarrow> panic + Encoder" where
  "buf_copy blob enc =
     (if length (outBuffer enc) < length blob then Inl SliceBounds
      else Inr (enc\<lparr>outBuffer := drop (length blob) (outBuffer enc),
                     outDone := outDone enc @ blob\<rparr>))"

definition offsetDynamics :: "32 word \<Rightarrow> Encoder \<Rightarrow> Encoder" where
  "offsetDynamics off enc = enc\<lparr>offset := off\<rparr>"

definition EncodeUint64 :: "64 word \<Rightarrow> Encoder \<Rightarrow> panic + Encoder" where
  "EncodeUint64 n enc =
     (case outWriter enc of
        Some w \<Rightarrow> if err enc \<noteq> None then Inr enc
                  else Inr (stream_write w (le_bytes 8 n) enc)
      | None \<Rightarrow> buf_put (le_bytes 8 n) enc)"

text \<open>
  \<open>EncodeUint256\<close>: a nil pointer is \<open>None\<close>. \<open>MarshalSSZTo\<close> of the uint256 library
  writes the 32 little-endian bytes of the integer, or returns an error (dropped
  here by the encoder) on a destination shorter than 32; the reslice
  \<open>enc.outBuffer[32:]\<close> then panics.
\<close>

definition EncodeUint256 :: "256 word option \<Rightarrow> Encoder \<Rightarrow> panic + Encoder" where
  "EncodeUint256 n enc =
     (case outWriter enc of
        Some w \<Rightarrow>
          if err enc \<noteq> None then Inr enc
          else (case n of
                  Some v \<Rightarrow> Inr (stream_write w (le_bytes 32 v) enc)
                | None \<Rightarrow> Inr (stream_write w (replicate 32 0) enc))
      | None \<Rightarrow>
          (case n of
             Some v \<Rightarrow> buf_copy (le_bytes 32 v) enc
           | None \<Rightarrow> buf_copy (replicate 32 0) enc))"

definition EncodeStaticBytes :: "byte list \<Rightarrow> Encoder \<Rightarrow> panic + Encoder" where
  "EncodeStaticBytes blob enc =
     (case outWriter enc of
        Some w \<Rightarrow> if err enc \<noteq> None then Inr enc else Inr (stream_write w blob enc)
      | None \<Rightarrow> buf_copy blob enc)"

text \<open>
  Every offset-phase operation starts with the same statements (the source repeats
  them verbatim): in streaming mode return at once on a latched error, else write
  the four bytes of \<open>enc.offset\<close>; in buffered mode put them into the window. What
  follows the \<open>if\<close>, the advance of \<open>enc.offset\<close>, differs per operation and is the
  argument \<open>advance\<close>.
\<close>

definition offset_slot :: "(Encoder \<Rightarrow> Encoder) \<Rightarrow> Encoder \<Rightarrow> panic + Encoder" where
  "offset_slot advance enc =
     (case outWriter enc of
        Some w \<Rightarrow>
          if err enc \<noteq> None then Inr enc
          else Inr (advance (stream_write w (le_bytes 4 (offset enc)) enc))
      | None \<Rightarrow>
          (case buf_put (le_bytes 4 (offset enc)) enc of
             Inl p \<Rightarrow> Inl p
           | Inr enc' \<Rightarrow> Inr (advance enc')))"

definition EncodeDynamicBytesOffset :: "byte list \<Rightarrow> Encoder \<Rightarrow> panic + Encoder" where
  "EncodeDynamicBytesOffset blob enc =
     offset_slot (\<lambda>e. e\<lparr>offset := offset e + of_nat (length blob)\<rparr>) enc"

definition EncodeDynamicBytesContent :: "byte list \<Rightarrow> Encoder \<Rightarrow> panic + Encoder" where
  "EncodeDynamicBytesContent blob enc =
     (case outWriter enc of
        Some w \<Rightarrow> if err enc \<noteq> None then Inr enc else Inr (stream_write w blob enc)
      | None \<Rightarrow> buf_copy blob enc)"

section \<open>Schemas and objects\<close>

text \<open>
  An object is what the encoder sees of a value type: its size method and its schema
  method. \<open>DefineSSZ\<close> runs a fixed sequence of \<open>Define...\<close> calls of the codec on the
  object's live fields; the sequence is kept as a list, each call with the field it
  is given (the size limits of the calls are read by the decoder only). \<open>SizeSSZ\<close> is
  \<open>SizeSSZ()\<close> of a static object and \<open>SizeSSZ(false)\<close> of a dynamic one,
  \<open>SizeSSZ_fixed\<close> is \<open>SizeSSZ(true)\<close>.
\<close>

datatype schema_call =
    DefineUint64 "64 word"
  | DefineUint256 "256 word option"
  | DefineStaticBytes "byte list"
  | DefineDynamicBytesOffset "byte list"
  | DefineDynamicBytesContent "byte list"
  | DefineStaticObject object
  | DefineDynamicObjectOffset object
  | DefineDynamicObjectContent object
  | DefineSliceOfUint64sOffset "64 word list"
  | DefineSliceOfUint64sContent "64 word list"
  | DefineArrayOfStaticBytes "byte list list"
  | DefineSliceOfStaticBytesOffset "byte list list"
  | DefineSliceOfStaticBytesContent "byte list list"
  | DefineSliceOfDynamicBytesOffset "byte list list"
  | DefineSliceOfDynamicBytesContent "byte list list"
  | DefineSliceOfStaticObjectsOffset "object list"
  | DefineSliceOfStaticObjectsContent "object list"
  | DefineSliceOfDynamicObjectsOffset "object list"
  | DefineSliceOfDynamicObjectsContent "object list"
and object =
    Object (SizeSSZ_fixed: "32 word") (SizeSSZ: "32 word") (DefineSSZ: "schema_call list")

definition EncodeDynamicObjectOffset :: "object \<Rightarrow> Encoder \<Rightarrow> panic + Encoder" where
  "EncodeDynamicObjectOffset obj enc =
     offset_slot (\<lambda>e. e\<lparr>offset := offset e + SizeSSZ obj\<rparr>) enc"

definition EncodeSliceOfUint64sOffset :: "64 word list \<Rightarrow> Encoder \<Rightarrow> panic + Encoder" where
  "EncodeSliceOfUint64sOffset ns enc =
     offset_slot
       (\<lambda>e. if length ns > 0 then e\<lparr>offset := offset e + of_nat (length ns * 8)\<rparr> else e) enc"

text \<open>The loops of \<open>EncodeSliceOfUint64sContent\<close>, one per mode.\<close>

fun uint64s_stream :: "64 word list \<Rightarrow> Encoder \<Rightarrow> Encoder" where
  "uint64s_stream [] enc = enc"
| "uint64s_stream (n # ns) enc =
     (if err enc \<noteq> None then enc
      else case outWriter enc of
             None \<Rightarrow> enc
           | Some w \<Rightarrow> uint64s_stream ns (stream_write w (le_bytes 8 n) enc))"

fun uint64s_buffer :: "64 word list \<Rightarrow> Encoder \<Rightarrow> panic + Encoder" where
  "uint64s_buffer [] enc = Inr enc"
| "uint64s_buffer (n # ns) enc =
     (case buf_put (le_bytes 8 n) enc of
        Inl p \<Rightarrow> Inl p
      | Inr enc' \<Rightarrow> uint64s_buffer ns enc')"

definition EncodeSliceOfUint64sContent :: "64 word list \<Rightarrow> Encoder \<Rightarrow> panic + Encoder" where
  "EncodeSliceOfUint64sContent ns enc =
     (case outWriter enc of
        Some w \<Rightarrow> Inr (uint64s_stream ns enc)
      | None \<Rightarrow> uint64s_buffer ns enc)"

text \<open>
  The loops of \<open>EncodeArrayOfStaticBytes\<close> and \<open>EncodeSliceOfStaticBytesContent\<close>
  (the same text in the source). The element type is one of the library's fixed-size
  byte arrays, so \<open>unsafe.Slice(&blobs[i][0], len(blobs[i]))\<close> is the array's bytes.
\<close>

fun blobs_stream :: "byte list list \<Rightarrow> Encoder \<Rightarrow> Encoder" where
  "blobs_stream [] enc = enc"
| "blobs_stream (blob # blobs) enc =
     (if err enc \<noteq> None then enc
      else case outWriter enc of
             None \<Rightarrow> enc
           | Some w \<Rightarrow> blobs_stream blobs (stream_write w blob enc))"

fun blobs_buffer :: "byte list list \<Rightarrow> Encoder \<Rightarrow> panic + Encoder" where
  "blobs_buffer [] enc = Inr enc"
| "blobs_buffer (blob # blobs) enc =
     (case buf_copy blob enc of
        Inl p \<Rightarrow> Inl p
      | Inr enc' \<Rightarrow> blobs_buffer blobs enc')"

definition EncodeArrayOfStaticBytes :: "byte list list \<Rightarrow> Encoder \<Rightarrow> panic + Encoder" where
  "EncodeArrayOfStaticBytes blobs enc =
     (case outWriter enc of
        Some w \<Rightarrow> Inr (blobs_stream blobs enc)
      | None \<Rightarrow> blobs_buffer blobs enc)"

definition EncodeSliceOfStaticBytesOffset :: "byte list list \<Rightarrow> Encoder \<Rightarrow> panic + Encoder" where
  "EncodeSliceOfStaticBytesOffset blobs enc =
     offset_slot
       (\<lambda>e. if length blobs > 0
            then e\<lparr>offset := offset e + of_nat (length blobs * length (hd blobs))\<rparr>
            else e) enc"

definition EncodeSliceOfStaticBytesContent :: "byte list list \<Rightarrow> Encoder \<Rightarrow> panic + Encoder" where
  "EncodeSliceOfStaticBytesContent blobs enc =
     (case outWriter enc of
        Some w \<Rightarrow> Inr (blobs_stream blobs enc)
      | None \<Rightarrow> blobs_buffer blobs enc)"

text \<open>\<open>for _, blob := range blobs { enc.offset += uint32(4 + len(blob)) }\<close>\<close>

fun dynamic_bytes_sizes :: "byte list list \<Rightarrow> Encoder \<Rightarrow> Encoder" where
  "dynamic_bytes_sizes [] enc = enc"
| "dynamic_bytes_sizes (blob # blobs) enc =
     dynamic_bytes_sizes blobs (enc\<lparr>offset := offset enc + of_nat (4 + length blob)\<rparr>)"

definition EncodeSliceOfDynamicBytesOffset :: "byte list list \<Rightarrow> Encoder \<Rightarrow> panic + Encoder" where
  "EncodeSliceOfDynamicBytesOffset blobs enc = offset_slot (dynamic_bytes_sizes blobs) enc"

text \<open>
  The first pair of loops of \<open>EncodeSliceOfDynamicBytesContent\<close> writes the item
  offsets. In streaming mode a latched error returns from the whole function: the
  loop's second result says whether it did.
\<close>

fun item_offsets_stream :: "byte list list \<Rightarrow> Encoder \<Rightarrow> Encoder \<times> bool" where
  "item_offsets_stream [] enc = (enc, False)"
| "item_offsets_stream (blob # blobs) enc =
     (if err enc \<noteq> None then (enc, True)
      else case outWriter enc of
             None \<Rightarrow> (enc, True)
           | Some w \<Rightarrow>
               item_offsets_stream blobs
                 ((stream_write w (le_bytes 4 (offset enc)) enc)
                    \<lparr>offset := offset enc + of_nat (length blob)\<rparr>))"

fun item_offsets_buffer :: "byte list list \<Rightarrow> Encoder \<Rightarrow> panic + Encoder" where
  "item_offsets_buffer [] enc = Inr enc"
| "item_offsets_buffer (blob # blobs) enc =
     (case buf_put (le_bytes 4 (offset enc)) enc of
        Inl p \<Rightarrow> Inl p
      | Inr enc' \<Rightarrow>
          item_offsets_buffer blobs (enc'\<lparr>offset := offset enc' + of_nat (length blob)\<rparr>))"

definition EncodeSliceOfDynamicBytesContent :: "byte list list \<Rightarrow> Encoder \<Rightarrow> panic + Encoder" where
  "EncodeSliceOfDynamicBytesContent blobs enc0 =
     (let enc = offsetDynamics (of_nat (4 * length blobs)) enc0 in
      case outWriter enc of
        Some w \<Rightarrow>
          (case item_offsets_stream blobs enc of
             (enc', returned) \<Rightarrow> if returned then Inr enc' else Inr (blobs_stream blobs enc'))
      | None \<Rightarrow>
          (case item_offsets_buffer blobs enc of
             Inl p \<Rightarrow> Inl p
           | Inr enc' \<Rightarrow> blobs_buffer blobs enc'))"

definition EncodeSliceOfStaticObjectsOffset :: "object list \<Rightarrow> Encoder \<Rightarrow> panic + Encoder" where
  "EncodeSliceOfStaticObjectsOffset objects enc =
     offset_slot
       (\<lambda>e. if length objects > 0
            then e\<lparr>offset := offset e + of_nat (length objects) * SizeSSZ (hd objects)\<rparr>
            else e) enc"

text \<open>\<open>for _, obj := range objects { enc.offset += 4 + obj.SizeSSZ(false) }\<close>\<close>

fun dynamic_objects_sizes :: "object list \<Rightarrow> Encoder \<Rightarrow> Encoder" where
  "dynamic_objects_sizes [] enc = enc"
| "dynamic_objects_sizes (obj # objects) enc =
     dynamic_objects_sizes objects (enc\<lparr>offset := offset enc + (4 + SizeSSZ obj)\<rparr>)"

definition EncodeSliceOfDynamicObjectsOffset :: "object list \<Rightarrow> Encoder \<Rightarrow> panic + Encoder" where
  "EncodeSliceOfDynamicObjectsOffset objects enc =
     offset_slot (dynamic_objects_sizes objects) enc"

text \<open>The first pair of loops of \<open>EncodeSliceOfDynamicObjectsContent\<close>.\<close>

fun object_offsets_stream :: "object list \<Rightarrow> Encoder \<Rightarrow> Encoder \<times> bool" where
  "object_offsets_stream [] enc = (enc, False)"
| "object_offsets_stream (obj # objects) enc =
     (if err enc \<noteq> None then (enc, True)
      else case outWriter enc of
             None \<Rightarrow> (enc, True)
           | Some w \<Rightarrow>
               object_offsets_stream objects
                 ((stream_write w (le_bytes 4 (offset enc)) enc)
                    \<lparr>offset := offset enc + SizeSSZ obj\<rparr>))"

fun object_offsets_buffer :: "object list \<Rightarrow> Encoder \<Rightarrow> panic + Encoder" where
  "object_offsets_buffer [] enc = Inr enc"
| "object_offsets_buffer (obj # objects) enc =
     (case buf_put (le_bytes 4 (offset enc)) enc of
        Inl p \<Rightarrow> Inl p
      | Inr enc' \<Rightarrow>
          object_offsets_buffer objects (enc'\<lparr>offset := offset enc' + SizeSSZ obj\<rparr>))"

definition object_offsets :: "object list \<Rightarrow> Encoder \<Rightarrow> panic + Encoder \<times> bool" where
  "object_offsets objects enc =
     (case outWriter enc of
        Some w \<Rightarrow> Inr (object_offsets_stream objects enc)
      | None \<Rightarrow>
          (case object_offsets_buffer objects enc of
             Inl p \<Rightarrow> Inl p
           | Inr enc' \<Rightarrow> Inr (enc', False)))"

text \<open>
  The operations that run a schema. The codec of an encoder routes every
  \<open>Define...\<close> call to the \<open>Encode...\<close> operation of the same name (\<open>Define\<close>);
  \<open>walk\<close> is \<open>obj.DefineSSZ(enc.codec)\<close>, one call after the other, a panic ending
  the walk; \<open>dynamic_objects_content\<close> is the last loop of
  \<open>EncodeSliceOfDynamicObjectsContent\<close>.
\<close>

fun Define :: "schema_call \<Rightarrow> Encoder \<Rightarrow> panic + Encoder"
and walk :: "schema_call list \<Rightarrow> Encoder \<Rightarrow> panic + Encoder"
and EncodeStaticObject :: "object \<Rightarrow> Encoder \<Rightarrow> panic + Encoder"
and EncodeDynamicObjectContent :: "object \<Rightarrow> Encoder \<Rightarrow> panic + Encoder"
and EncodeSliceOfStaticObjectsContent :: "object list \<Rightarrow> Encoder \<Rightarrow> panic + Encoder"
and EncodeSliceOfDynamicObjectsContent :: "object list \<Rightarrow> Encoder \<Rightarrow> panic + Encoder"
and dynamic_objects_content :: "object list \<Rightarrow> Encoder \<Rightarrow> panic + Encoder"
where
  "Define (DefineUint64 n) enc = EncodeUint64 n enc"
| "Define (DefineUint256 n) enc = EncodeUint256 n enc"
| "Define (DefineStaticBytes blob) enc = EncodeStaticBytes blob enc"
| "Define (DefineDynamicBytesOffset blob) enc = EncodeDynamicBytesOffset blob enc"
| "Define (DefineDynamicBytesContent blob) enc = EncodeDynamicBytesContent blob enc"
| "Define (DefineStaticObject obj) enc = EncodeStaticObject obj enc"
| "Define (DefineDynamicObjectOffset obj) enc = EncodeDynamicObjectOffset obj enc"
| "Define (DefineDynamicObjectContent obj) enc = EncodeDynamicObjectContent obj enc"
| "Define (DefineSliceOfUint64sOffset ns) enc = EncodeSliceOfUint64sOffset ns enc"
| "Define (DefineSliceOfUint64sContent ns) enc = EncodeSliceOfUint64sContent ns enc"
| "Define (DefineArrayOfStaticBytes blobs) enc = EncodeArrayOfStaticBytes blobs enc"
| "Define (DefineSliceOfStaticBytesOffset blobs) enc = EncodeSliceOfStaticBytesOffset blobs enc"
| "Define (DefineSliceOfStaticBytesContent blobs) enc = EncodeSliceOfStaticBytesContent blobs enc"
| "Define (DefineSliceOfDynamicBytesOffset blobs) enc = EncodeSliceOfDynamicBytesOffset blobs enc"
| "Define (DefineSliceOfDynamicBytesContent blobs) enc = EncodeSliceOfDynamicBytesContent blobs enc"
| "Define (DefineSliceOfStaticObjectsOffset objects) enc =
     EncodeSliceOfStaticObjectsOffset objects enc"
| "Define (DefineSliceOfStaticObjectsContent objects) enc =
     EncodeSliceOfStaticObjectsContent objects enc"
| "Define (DefineSliceOfDynamicObjectsOffset objects) enc =
     EncodeSliceOfDynamicObjectsOffset objects enc"
| "Define (DefineSliceOfDynamicObjectsContent objects) enc =
     EncodeSliceOfDynamicObjectsContent objects enc"
| "walk [] enc = Inr enc"
| "walk (d # ds) enc =
     (case Define d enc of
        Inl p \<Rightarrow> Inl p
      | Inr enc' \<Rightarrow> walk ds enc')"
| "EncodeStaticObject (Object sf st ds) enc =
     (if err enc \<noteq> None then Inr enc else walk ds enc)"
| "EncodeDynamicObjectContent (Object sf st ds) enc =
     (if err enc \<noteq> None then Inr enc else walk ds (offsetDynamics sf enc))"
| "EncodeSliceOfStaticObjectsContent [] enc = Inr enc"
| "EncodeSliceOfStaticObjectsContent (Object sf st ds # objects) enc =
     (if err enc \<noteq> None then Inr enc
      else case walk ds enc of
             Inl p \<Rightarrow> Inl p
           | Inr enc' \<Rightarrow> EncodeSliceOfStaticObjectsContent objects enc')"
| "EncodeSliceOfDynamicObjectsContent objects enc =
     (case object_offsets objects (offsetDynamics (of_nat (4 * length objects)) enc) of
        Inl p \<Rightarrow> Inl p
      | Inr (enc', returned) \<Rightarrow>
          if returned then Inr enc' else dynamic_objects_content objects enc')"
| "dynamic_objects_content [] enc = Inr enc"
| "dynamic_objects_content (Object sf st ds # objects) enc =
     (if err enc \<noteq> None then Inr enc
      else case walk ds (offsetDynamics sf enc) of
             Inl p \<Rightarrow> Inl p
           | Inr enc' \<Rightarrow> dynamic_objects_content objects enc')"

section \<open>The value types of the tests\<close>

text \<open>A fresh encoder of each mode; \<open>enc.offset\<close> is Go's zero value until set.\<close>

definition stream_encoder :: "Sink \<Rightarrow> Encoder" where
  "stream_encoder w =
     \<lparr>outWriter = Some w, outBuffer = [], outDone = [], err = None, offset = 0\<rparr>"

definition buffer_encoder :: "byte list \<Rightarrow> Encoder" where
  "buffer_encoder buf =
     \<lparr>outWriter = None, outBuffer = buf, outDone = [], err = None, offset = 0\<rparr>"

definition quiet_sink :: Sink where
  "quiet_sink = \<lparr>accepted = [], script = []\<rparr>"

text \<open>
  \<open>VoluntaryExit\<close> (tests/partial/voluntary_exit.go): \<open>SizeSSZ() = 16\<close>, and
  \<open>DefineSSZ\<close> defines the two \<open>uint64\<close> fields.
\<close>

record VoluntaryExit =
  Epoch :: "64 word"
  ValidatorIndex :: "64 word"

definition VoluntaryExit_object :: "VoluntaryExit \<Rightarrow> object" where
  "VoluntaryExit_object v =
     Object 16 16 [DefineUint64 (Epoch v), DefineUint64 (ValidatorIndex v)]"

text \<open>
  Modelled from the spec: the decoder, which is not among the sources. It is the
  mirror of the encoder: a reference to the input with a read cursor (\<open>input\<close> is
  what lies after the cursor) and a latched first error; a read of a fixed-width
  slot past the end of the payload fails with \<open>InputShort\<close>, and a latched error
  suppresses the reads that follow. \<open>DecodeUint64\<close> reads eight little-endian
  bytes into the field it is given; the result is the decoder and the field
  afterwards.
\<close>

datatype decode_error = InputShort

record Decoder =
  input :: "byte list"
  derr :: "decode_error option"

definition DecodeUint64 :: "Decoder \<Rightarrow> 64 word \<Rightarrow> Decoder \<times> 64 word" where
  "DecodeUint64 dec n =
     (if derr dec \<noteq> None then (dec, n)
      else if length (input dec) < 8 then (dec\<lparr>derr := Some InputShort\<rparr>, n)
      else (dec\<lparr>input := drop 8 (input dec)\<rparr>, le_word (take 8 (input dec))))"

text \<open>
  \<open>VoluntaryExit.DefineSSZ\<close> on a codec that holds a decoder: \<open>DefineUint64\<close>
  (codec.go) calls \<open>DecodeUint64\<close> on each field in turn.
\<close>

definition VoluntaryExit_DefineSSZ_dec :: "Decoder \<Rightarrow> VoluntaryExit \<Rightarrow> Decoder \<times> VoluntaryExit" where
  "VoluntaryExit_DefineSSZ_dec dec v =
     (case DecodeUint64 dec (Epoch v) of
        (dec1, e) \<Rightarrow>
          (case DecodeUint64 dec1 (ValidatorIndex v) of
             (dec2, i) \<Rightarrow> (dec2, v\<lparr>Epoch := e, ValidatorIndex := i\<rparr>)))"

text \<open>
  Modelled from the spec: \<open>Decode(value, payload)\<close>, which is not among the sources.
  It runs the schema of the value on a fresh decoder over the payload and returns
  the latched error and the value afterwards.
\<close>

definition Decode_VoluntaryExit :: "VoluntaryExit \<Rightarrow> byte list \<Rightarrow> decode_error option \<times> VoluntaryExit" where
  "Decode_VoluntaryExit v bytes =
     (case VoluntaryExit_DefineSSZ_dec \<lparr>input = bytes, derr = None\<rparr> v of
        (dec, v') \<Rightarrow> (derr dec, v'))"

text \<open>
  What an encoder has written: the bytes its sink has accepted in streaming mode,
  the filled part of the caller's buffer in buffered mode.
\<close>

definition written :: "Encoder \<Rightarrow> byte list" where
  "written enc = (case outWriter enc of Some w \<Rightarrow> accepted w | None \<Rightarrow> outDone enc)"

text \<open>
  \<open>ExecutionPayload\<close> (tests/partial/voluntary_exit.go, second part). The byte
  arrays \<open>Hash\<close>, \<open>Address\<close> and \<open>LogsBloom\<close> are byte lists of length 32, 20 and 256.
\<close>

record ExecutionPayload =
  ParentHash :: "byte list"
  FeeRecipient :: "byte list"
  StateRoot :: "byte list"
  ReceiptsRoot :: "byte list"
  LogsBloom :: "byte list"
  PrevRandao :: "byte list"
  BlockNumber :: "64 word"
  GasLimit :: "64 word"
  GasUsed :: "64 word"
  Timestamp :: "64 word"
  ExtraData :: "byte list"
  BaseFeePerGas :: "256 word option"
  BlockHash :: "byte list"
  Transactions :: "byte list list"

text \<open>
  Modelled from the spec: the size helpers \<open>SizeDynamicBytes\<close> and
  \<open>SizeSliceOfDynamicBytes\<close>, which are not among the sources: the serialized
  length of a byte blob, and of a list of byte blobs (a 4-byte offset and the
  content, per item).
\<close>

definition SizeDynamicBytes :: "byte list \<Rightarrow> 32 word" where
  "SizeDynamicBytes blob = of_nat (length blob)"

definition SizeSliceOfDynamicBytes :: "byte list list \<Rightarrow> 32 word" where
  "SizeSliceOfDynamicBytes blobs = of_nat (sum_list (map (\<lambda>blob. 4 + length blob) blobs))"

definition ExecutionPayload_SizeSSZ :: "ExecutionPayload \<Rightarrow> bool \<Rightarrow> 32 word" where
  "ExecutionPayload_SizeSSZ e fixed =
     (if fixed then 508
      else 508 + SizeDynamicBytes (ExtraData e) + SizeSliceOfDynamicBytes (Transactions e))"

text \<open>
  Modelled from the spec: \<open>DefineDynamicBytes\<close> and \<open>DefineSliceOfDynamicBytes\<close>,
  the two calls of \<open>ExecutionPayload.DefineSSZ\<close> that are not among the sources
  (codec.go has the offset and content halves only). A dynamic field takes two
  calls, the offset call in fixed-region order and the content call after all
  fixed-region calls: the schema below has the offset halves at fields 10 and 13
  and the content halves, in field order, at its end. The other calls are the
  source's.
\<close>

definition ExecutionPayload_object :: "ExecutionPayload \<Rightarrow> object" where
  "ExecutionPayload_object e =
     Object (ExecutionPayload_SizeSSZ e True) (ExecutionPayload_SizeSSZ e False)
       [DefineStaticBytes (ParentHash e),
        DefineStaticBytes (FeeRecipient e),
        DefineStaticBytes (StateRoot e),
        DefineStaticBytes (ReceiptsRoot e),
        DefineStaticBytes (LogsBloom e),
        DefineStaticBytes (PrevRandao e),
        DefineUint64 (BlockNumber e),
        DefineUint64 (GasLimit e),
        DefineUint64 (GasUsed e),
        DefineUint64 (Timestamp e),
        DefineDynamicBytesOffset (ExtraData e),
        DefineUint256 (BaseFeePerGas e),
        DefineStaticBytes (BlockHash e),
        DefineSliceOfDynamicBytesOffset (Transactions e),
        DefineDynamicBytesContent (ExtraData e),
        DefineSliceOfDynamicBytesContent (Transactions e)]"

text \<open>
  The value of scenario S6: \<open>ExtraData = [0x01, 0x02]\<close>,
  \<open>Transactions = [[0x10], [0x20, 0x21]]\<close>, every other field Go's zero value
  (\<open>BaseFeePerGas\<close> a nil pointer).
\<close>

definition s6_value :: ExecutionPayload where
  "s6_value =
     \<lparr>ParentHash = replicate 32 0, FeeRecipient = replicate 20 0,
      StateRoot = replicate 32 0, ReceiptsRoot = replicate 32 0,
      LogsBloom = replicate 256 0, PrevRandao = replicate 32 0,
      BlockNumber = 0, GasLimit = 0, GasUsed = 0, Timestamp = 0,
      ExtraData = [0x01, 0x02], BaseFeePerGas = None, BlockHash = replicate 32 0,
      Transactions = [[0x10], [0x20, 0x21]]\<rparr>"

text \<open>The 521 bytes that S6 describes.\<close>

definition s6_bytes :: "byte list" where
  "s6_bytes =
     replicate 436 0 @ le_bytes 4 (508 :: 32 word) @ replicate 64 0
     @ le_bytes 4 (510 :: 32 word)
     @ [0x01, 0x02]
     @ le_bytes 4 (8 :: 32 word) @ le_bytes 4 (9 :: 32 word) @ [0x10] @ [0x20, 0x21]"

text \<open>
  A payload for a list reader over static items: one container whose only field is a
  list of two \<open>VoluntaryExit\<close> values, \<open>{1, 2}\<close> and \<open>{3, 4}\<close>. The offset slot at 0
  holds 4, the list's bytes are \<open>[4, 36)\<close>. The payloads of the examples have no
  spare capacity.
\<close>

definition exits_src :: ReaderSource where
  "exits_src =
     \<lparr>payload = le_bytes 4 (4 :: 32 word)
        @ le_bytes 8 (1 :: 64 word) @ le_bytes 8 (2 :: 64 word)
        @ le_bytes 8 (3 :: 64 word) @ le_bytes 8 (4 :: 64 word),
      spare = []\<rparr>"

definition exits_reader :: ListReader where
  "exits_reader = \<lparr>Prototype = VoluntaryExitReader, pos = rootPos exits_src\<rparr>"

text \<open>
  A payload for a list reader over dynamic items: one container whose only field is
  the list of byte blobs \<open>[[0x10], [0x20, ..., 0x26]]\<close>. The offset slot at 0 holds 4;
  the list's bytes are \<open>[4, 20)\<close>: the item offsets 8 and 9, then the blobs. The
  item prototype is a dynamic reader whose \<open>SizeSSZ\<close> is 4.
\<close>

definition blobs_src :: ReaderSource where
  "blobs_src =
     \<lparr>payload = le_bytes 4 (4 :: 32 word)
        @ le_bytes 4 (8 :: 32 word) @ le_bytes 4 (9 :: 32 word)
        @ [0x10] @ [0x20, 0x21, 0x22, 0x23, 0x24, 0x25, 0x26],
      spare = []\<rparr>"

definition blobs_reader :: ListReader where
  "blobs_reader = \<lparr>Prototype = DynamicReader (\<lambda>fixed. 4), pos = rootPos blobs_src\<rparr>"

text \<open>
  A payload of three bytes with no spare capacity, too short for any fixed-width
  read, and the same three bytes as the start of an array of ten
  (\<open>make([]byte, 3, 10)\<close> filled with \<open>1 .. 10\<close>).
\<close>

definition short_src :: ReaderSource where
  "short_src = \<lparr>payload = [1, 2, 3], spare = []\<rparr>"

definition roomy_src :: ReaderSource where
  "roomy_src = \<lparr>payload = [1, 2, 3], spare = [4, 5, 6, 7, 8, 9, 10]\<rparr>"

text \<open>
  A sink whose second write fails after taking three bytes, and a streaming encoder
  that has an error latched already.
\<close>

definition failing_sink :: Sink where
  "failing_sink = \<lparr>accepted = [], script = [None, Some (3, WriteError 1), None]\<rparr>"

definition latched_sink :: Sink where
  "latched_sink = \<lparr>accepted = [1, 2, 3], script = []\<rparr>"

definition latched_encoder :: Encoder where
  "latched_encoder = (stream_encoder latched_sink)\<lparr>err := Some (WriteError 1)\<rparr>"

text \<open>A buffered encoder over eight bytes whose error field is set.\<close>

definition marked_buffer_encoder :: Encoder where
  "marked_buffer_encoder = (buffer_encoder (replicate 8 0))\<lparr>err := Some (WriteError 1)\<rparr>"

section \<open>Notions used by the properties\<close>

text \<open>A sink that never fails: no answer of its script is an error.\<close>

definition never_fails :: "Sink \<Rightarrow> bool" where
  "never_fails w = list_all (\<lambda>r. r = None) (script w)"

text \<open>
  The atomic effects an encode operation has on the encoder: one write to the sink,
  which streaming mode attempts only while no error is latched; a change of
  \<open>enc.offset\<close>; and, in buffered mode, bytes that fit put into the window.
\<close>

inductive enc_step :: "Encoder \<Rightarrow> Encoder \<Rightarrow> bool" where
  step_write:
    "outWriter enc = Some w \<Longrightarrow> err enc = None \<Longrightarrow> enc_step enc (stream_write w p enc)"
| step_offset:
    "enc_step enc (enc\<lparr>offset := x\<rparr>)"
| step_fill:
    "outWriter enc = None \<Longrightarrow> length bs \<le> length (outBuffer enc) \<Longrightarrow>
     enc_step enc (enc\<lparr>outBuffer := drop (length bs) (outBuffer enc),
                        outDone := outDone enc @ bs\<rparr>)"

abbreviation reach :: "Encoder \<Rightarrow> Encoder \<Rightarrow> bool" where
  "reach \<equiv> enc_step\<^sup>*\<^sup>*"

text \<open>
  \<open>runs f enc\<close>: the operation \<open>f\<close> returns (does not panic) on a streaming encoder,
  and the encoder it returns, in either mode, comes from \<open>enc\<close> by atomic effects.
\<close>

definition runs :: "(Encoder \<Rightarrow> panic + Encoder) \<Rightarrow> Encoder \<Rightarrow> bool" where
  "runs f enc \<longleftrightarrow>
     (outWriter enc \<noteq> None \<longrightarrow> (\<exists>enc'. f enc = Inr enc'))
     \<and> (\<forall>enc'. f enc = Inr enc' \<longrightarrow> reach enc enc')"

text \<open>
  The state of a streaming encoder whose sink will fail for the first time, with
  error \<open>e\<close>, at the write after \<open>i\<close> more successful ones: either the failing write
  is still to come and no error is latched, or it has happened, \<open>e\<close> is latched,
  and the script stands where the failing write left it.
\<close>

definition pending :: "nat \<Rightarrow> nat \<Rightarrow> error \<Rightarrow> (nat \<times> error) option list \<Rightarrow> Encoder \<Rightarrow> bool" where
  "pending i k e rest a \<longleftrightarrow>
     (\<exists>w'. outWriter a = Some w' \<and>
        ((err a = None \<and> (\<exists>j\<le>i. script w' = replicate j None @ Some (k, e) # rest))
         \<or> (err a = Some e \<and> script w' = rest)))"

text \<open>
  A streaming encoder with no latched error over a sink that never fails, the
  encoder it becomes by sending the bytes \<open>X\<close> and moving \<open>enc.offset\<close> to \<open>o'\<close>, and
  the same for a buffered encoder.
\<close>

definition good :: "Encoder \<Rightarrow> bool" where
  "good es \<longleftrightarrow> (\<exists>w. outWriter es = Some w \<and> never_fails w) \<and> err es = None"

definition streams :: "Encoder \<Rightarrow> byte list \<Rightarrow> 32 word \<Rightarrow> Encoder \<Rightarrow> bool" where
  "streams es X o' es' \<longleftrightarrow>
     (\<exists>w w'. outWriter es = Some w \<and> never_fails w' \<and> accepted w' = accepted w @ X
        \<and> es' = es\<lparr>outWriter := Some w', offset := o'\<rparr>)"

definition fills :: "byte list \<Rightarrow> 32 word \<Rightarrow> Encoder \<Rightarrow> Encoder" where
  "fills X o' eb =
     eb\<lparr>outBuffer := drop (length X) (outBuffer eb), outDone := outDone eb @ X, offset := o'\<rparr>"

text \<open>
  \<open>agree f es\<close>: on the good streaming encoder \<open>es\<close> the operation \<open>f\<close> sends some
  bytes \<open>X\<close>, and on every buffered encoder with the same \<open>offset\<close>, no latched error
  and room for \<open>X\<close> it puts the same bytes into the buffer and leaves the same
  \<open>offset\<close>.
\<close>

definition agree :: "(Encoder \<Rightarrow> panic + Encoder) \<Rightarrow> Encoder \<Rightarrow> bool" where
  "agree f es \<longleftrightarrow>
     (good es \<longrightarrow>
        (\<exists>X o' es'. f es = Inr es' \<and> streams es X o' es'
           \<and> (\<forall>eb. outWriter eb = None \<and> err eb = None \<and> offset eb = offset es
                    \<and> length X \<le> length (outBuffer eb)
                 \<longrightarrow> f eb = Inr (fills X o' eb))))"

text \<open>
  \<open>ignores_err f enc bytes\<close>: the result of \<open>f\<close> on \<open>enc\<close> does not depend on the
  latched error and keeps it; \<open>f\<close> returns when the window has room for \<open>bytes\<close>; and
  when it returns, it has put \<open>bytes\<close> into the buffer.
\<close>

definition ignores_err :: "(Encoder \<Rightarrow> panic + Encoder) \<Rightarrow> Encoder \<Rightarrow> byte list \<Rightarrow> bool" where
  "ignores_err f enc bytes \<longleftrightarrow>
     (\<forall>x. f (enc\<lparr>err := x\<rparr>) = map_sum id (\<lambda>e. e\<lparr>err := x\<rparr>) (f enc))
     \<and> (length bytes \<le> length (outBuffer enc) \<longrightarrow> (\<exists>enc'. f enc = Inr enc'))
     \<and> (\<forall>enc'. f enc = Inr enc'
           \<longrightarrow> outDone enc' = outDone enc @ bytes
               \<and> outBuffer enc' = drop (length bytes) (outBuffer enc)
               \<and> err enc' = err enc)"

text \<open>
  \<open>emits_offset f enc L\<close>: unless an error is latched (streaming mode) or the
  window is shorter than four bytes (buffered mode), the operation \<open>f\<close> returns,
  having emitted the four little-endian bytes of the current \<open>enc.offset\<close> and then
  advanced \<open>enc.offset\<close> by \<open>L\<close>.
\<close>

definition emits_offset :: "(Encoder \<Rightarrow> panic + Encoder) \<Rightarrow> Encoder \<Rightarrow> 32 word \<Rightarrow> bool" where
  "emits_offset f enc L \<longleftrightarrow>
     (case outWriter enc of
        Some w \<Rightarrow>
          err enc = None \<longrightarrow>
          f enc = Inr ((stream_write w (le_bytes 4 (offset enc)) enc)\<lparr>offset := offset enc + L\<rparr>)
      | None \<Rightarrow>
          4 \<le> length (outBuffer enc) \<longrightarrow>
          f enc = Inr (fills (le_bytes 4 (offset enc)) (offset enc + L) enc))"

text \<open>
  \<open>content_length f es n\<close>: on a good streaming encoder the operation \<open>f\<close> sends
  exactly \<open>n\<close> bytes.
\<close>

definition content_length :: "(Encoder \<Rightarrow> panic + Encoder) \<Rightarrow> Encoder \<Rightarrow> nat \<Rightarrow> bool" where
  "content_length f es n \<longleftrightarrow>
     (good es \<longrightarrow> (\<exists>X es'. f es = Inr es' \<and> written es' = written es @ X \<and> length X = n))"

text \<open>
  \<open>sound enc\<close>: the encoder can still succeed: in streaming mode no error is
  latched and the sink never fails; a buffered encoder always is.
\<close>

definition sound :: "Encoder \<Rightarrow> bool" where
  "sound enc \<longleftrightarrow>
     (case outWriter enc of Some w \<Rightarrow> never_fails w \<and> err enc = None | None \<Rightarrow> True)"

text \<open>
  \<open>first_slot f enc x\<close>: the operation \<open>f\<close> returns on a streaming encoder, and
  whenever it returns, the first thing it has emitted is the four little-endian
  bytes of \<open>x\<close>.
\<close>

definition first_slot :: "(Encoder \<Rightarrow> panic + Encoder) \<Rightarrow> Encoder \<Rightarrow> 32 word \<Rightarrow> bool" where
  "first_slot f enc x \<longleftrightarrow>
     (outWriter enc \<noteq> None \<longrightarrow> (\<exists>enc'. f enc = Inr enc'))
     \<and> (\<forall>enc'. f enc = Inr enc' \<longrightarrow> (\<exists>Y. written enc' = written enc @ le_bytes 4 x @ Y))"

text \<open>
  The schema calls that define static fields: integers, static byte arrays, arrays
  of them, and static objects, whose own schema has static calls only.
\<close>

fun static_call :: "schema_call \<Rightarrow> bool"
and static_calls :: "schema_call list \<Rightarrow> bool" where
  "static_call (DefineUint64 n) = True"
| "static_call (DefineUint256 n) = True"
| "static_call (DefineStaticBytes blob) = True"
| "static_call (DefineArrayOfStaticBytes blobs) = True"
| "static_call (DefineStaticObject (Object sf st ds)) = static_calls ds"
| "static_call (DefineDynamicBytesOffset blob) = False"
| "static_call (DefineDynamicBytesContent blob) = False"
| "static_call (DefineDynamicObjectOffset obj) = False"
| "static_call (DefineDynamicObjectContent obj) = False"
| "static_call (DefineSliceOfUint64sOffset ns) = False"
| "static_call (DefineSliceOfUint64sContent ns) = False"
| "static_call (DefineSliceOfStaticBytesOffset blobs) = False"
| "static_call (DefineSliceOfStaticBytesContent blobs) = False"
| "static_call (DefineSliceOfDynamicBytesOffset blobs) = False"
| "static_call (DefineSliceOfDynamicBytesContent blobs) = False"
| "static_call (DefineSliceOfStaticObjectsOffset objects) = False"
| "static_call (DefineSliceOfStaticObjectsContent objects) = False"
| "static_call (DefineSliceOfDynamicObjectsOffset objects) = False"
| "static_call (DefineSliceOfDynamicObjectsContent objects) = False"
| "static_calls [] = True"
| "static_calls (d # ds) = (static_call d \<and> static_calls ds)"

text \<open>
  The schema calls of an offset phase, and what each adds to \<open>enc.offset\<close> after
  it has emitted the placeholder (the statements that follow the \<open>if\<close> in each
  \<open>Encode...Offset\<close>); the other calls add nothing. \<open>fixed_calls\<close> are the calls
  that make up the fixed region of a container: static fields and offset-phase
  calls.
\<close>

fun offset_call :: "schema_call \<Rightarrow> bool" where
  "offset_call (DefineDynamicBytesOffset blob) = True"
| "offset_call (DefineDynamicObjectOffset obj) = True"
| "offset_call (DefineSliceOfUint64sOffset ns) = True"
| "offset_call (DefineSliceOfStaticBytesOffset blobs) = True"
| "offset_call (DefineSliceOfDynamicBytesOffset blobs) = True"
| "offset_call (DefineSliceOfStaticObjectsOffset objects) = True"
| "offset_call (DefineSliceOfDynamicObjectsOffset objects) = True"
| "offset_call _ = False"

fun advance_of :: "schema_call \<Rightarrow> 32 word" where
  "advance_of (DefineDynamicBytesOffset blob) = of_nat (length blob)"
| "advance_of (DefineDynamicObjectOffset obj) = SizeSSZ obj"
| "advance_of (DefineSliceOfUint64sOffset ns) =
     (if length ns > 0 then of_nat (length ns * 8) else 0)"
| "advance_of (DefineSliceOfStaticBytesOffset blobs) =
     (if length blobs > 0 then of_nat (length blobs * length (hd blobs)) else 0)"
| "advance_of (DefineSliceOfDynamicBytesOffset blobs) =
     sum_list (map (\<lambda>blob. of_nat (4 + length blob)) blobs)"
| "advance_of (DefineSliceOfStaticObjectsOffset objects) =
     (if length objects > 0 then of_nat (length objects) * SizeSSZ (hd objects) else 0)"
| "advance_of (DefineSliceOfDynamicObjectsOffset objects) =
     sum_list (map (\<lambda>obj. 4 + SizeSSZ obj) objects)"
| "advance_of _ = 0"

definition fixed_calls :: "schema_call list \<Rightarrow> bool" where
  "fixed_calls ds = list_all (\<lambda>d. static_call d \<or> offset_call d) ds"

section \<open>Properties\<close>

subsection \<open>Helper facts about slices\<close>

lemma unat_le_length:
  "uint (w :: 'a::len word) \<le> int n \<Longrightarrow> unat w \<le> n"
  by (metis nat_le_iff nat_uint_eq)

lemma slice_words:
  fixes start end' :: "32 word"
  assumes "start \<le> end'" and "uint end' \<le> int (length xs)"
  shows "slice xs sp (uint start) (uint end')
         = Inr (take (unat end' - unat start) (drop (unat start) xs))"
proof -
  have a: "uint start \<le> uint end'" using assms(1) by (simp only: word_le_def)
  have b: "unat end' \<le> length xs" using assms(2) by (rule unat_le_length)
  have c: "nat (uint end' - uint start) = unat end' - unat start"
    using a by (simp add: nat_diff_distrib)
  have d: "take (unat end' - unat start) (drop (unat start) (xs @ sp))
           = take (unat end' - unat start) (drop (unat start) xs)"
    using b by simp
  show ?thesis unfolding slice_def using a assms(2) c d by simp
qed

lemma Uint64Reader_Read_short:
  "int (length (payload src) + length (spare src)) < uint (Offset p) + 8
   \<Longrightarrow> Uint64Reader_Read src p = Inl SliceBounds"
  by (simp add: Uint64Reader_Read_def slice_def)

lemma Uint64Reader_Read_within_cap:
  assumes "uint (Offset p) + 8 \<le> int (length (payload src) + length (spare src))"
  shows "Uint64Reader_Read src p
         = Inr (le_word (take 8 (drop (unat (Offset p)) (payload src @ spare src))))"
proof -
  define ys where "ys = drop (unat (Offset p)) (payload src @ spare src)"
  have n: "nat (uint (Offset p)) = unat (Offset p)" by (rule nat_uint_eq)
  have "nat (uint (Offset p) + 8) \<le> length (payload src) + length (spare src)"
    using assms by (simp only: nat_le_iff)
  moreover have "nat (uint (Offset p) + 8) = nat (uint (Offset p)) + 8"
    by (simp add: nat_add_distrib)
  ultimately have "unat (Offset p) + 8 \<le> length (payload src @ spare src)"
    unfolding n by simp
  then have l: "8 \<le> length ys" unfolding ys_def by simp
  have sl: "slice (payload src) (spare src) (uint (Offset p)) (uint (Offset p) + 8)
            = Inr (take 8 ys)"
    unfolding slice_def ys_def using assms n by simp
  have u: "Uint64 (take 8 ys) = Inr (le_word (take 8 ys))"
    using l by (simp add: Uint64_def)
  show ?thesis unfolding Uint64Reader_Read_def sl ys_def [symmetric] using u by simp
qed

lemma Item_out_of_range:
  assumes "Prototype r \<noteq> OtherReader" and "Len r src = Inr len" and "len \<le> n"
  shows "Item r src n = Inl OutOfBounds"
  using assms
  by (auto simp: Item_def Len_def ItemSize_def split: sum.splits Prototype.splits if_splits)

subsection \<open>The list reader\<close>

text \<open>
  Claim C1, on the list of two 16-byte \<open>VoluntaryExit\<close> items at \<open>[4, 36)\<close>. The
  length accessor returns \<open>(36 - 4) / 16 = 2\<close>, and \<open>Item(1)\<close> has \<open>NextOffset = 0\<close>
  and \<open>ContainerEnd = 36\<close>, as the claim says. Its \<open>Offset\<close> is \<open>start + n = 5\<close>, not
  \<open>start + n * itemSize = 20\<close>: reading the child's \<open>Epoch\<close> there gives bytes 5..12
  of the payload, \<open>0x0200000000000000\<close>, where the second item's epoch, as read at
  offset 20, is 3.
\<close>

theorem static_item_offset_ignores_itemSize:
  "Len exits_reader exits_src = Inr 2
   \<and> Item exits_reader exits_src 1 = Inr \<lparr>Offset = 5, NextOffset = 0, ContainerEnd = 36\<rparr>
   \<and> (5 :: 32 word) \<noteq> 4 + 1 * 16
   \<and> Uint64Reader_Read exits_src
        (VoluntaryExitReader_Epoch \<lparr>Offset = 5, NextOffset = 0, ContainerEnd = 36\<rparr>)
      = Inr 0x0200000000000000
   \<and> Uint64Reader_Read exits_src
        (VoluntaryExitReader_Epoch \<lparr>Offset = 4 + 1 * 16, NextOffset = 0, ContainerEnd = 36\<rparr>)
      = Inr 3"
  by code_simp

text \<open>
  Claim C2, on the list of two byte blobs at \<open>[4, 20)\<close> whose first item offset (the
  four bytes at \<open>start = 4\<close>) is 8, read with a dynamic item prototype of size 4. The
  claim's length is \<open>firstOffset / 4 = 2\<close>; \<open>Len\<close> returns
  \<open>(end - start) / SizeSSZ(false) = 16 / 4 = 4\<close>. The claim puts the offset slot of
  item 1 at \<open>start + 4 * 1 = 8\<close> and, item 1 being the last, its end at the list's end
  (\<open>NextOffset = 0\<close>); \<open>Item(1)\<close> returns \<open>Offset = start + 1 = 5\<close> and
  \<open>NextOffset = start + 4 = 8\<close>.
\<close>

theorem dynamic_item_slots_wrong:
  "offset_at blobs_src 4 = Inr 8
   \<and> Len blobs_reader blobs_src = Inr 4
   \<and> uint ((8 :: 32 word) div 4) = 2
   \<and> Item blobs_reader blobs_src 1 = Inr \<lparr>Offset = 5, NextOffset = 8, ContainerEnd = 20\<rparr>
   \<and> (5 :: 32 word) \<noteq> 4 + 4 * 1"
  by code_simp

subsection \<open>Failures of the partial reader\<close>

text \<open>
  Claim C7 as stated is false: a read of a \<open>uint64\<close> from a payload of three bytes
  (with no spare capacity) and an \<open>Item(2)\<close> on a list of two items do not return a
  typed error, they panic (the runtime's slice bounds panic, and the explicit
  \<open>panic("out of bounds")\<close>).
\<close>

theorem reader_failure_is_panic_example:
  "Uint64Reader_Read short_src (rootPos short_src) = Inl SliceBounds
   \<and> Len exits_reader exits_src = Inr 2
   \<and> Item exits_reader exits_src 2 = Inl OutOfBounds"
  by code_simp

text \<open>
  Claim C7, amended: the 8-byte read of \<open>Uint64Reader.Read\<close> panics with the
  runtime's slice bounds panic exactly when the payload's capacity ends before
  \<open>Offset + 8\<close>; when only the length of the payload does, the read returns the
  eight bytes of the backing array at \<open>Offset\<close>, those past \<open>len(payload)\<close> included.
  An index at or above the length that \<open>Len\<close> returns makes \<open>Item\<close> panic with
  "out of bounds", on every list reader whose item prototype is static or dynamic.
  No accessor returns an error value.
\<close>

theorem reader_failures_panic:
  "(int (length (payload src) + length (spare src)) < uint (Offset p) + 8
      \<longrightarrow> Uint64Reader_Read src p = Inl SliceBounds)
   \<and> (uint (Offset p) + 8 \<le> int (length (payload src) + length (spare src))
      \<longrightarrow> Uint64Reader_Read src p
          = Inr (le_word (take 8 (drop (unat (Offset p)) (payload src @ spare src)))))
   \<and> (Prototype r \<noteq> OtherReader \<longrightarrow> Len r src' = Inr len \<longrightarrow> len \<le> n
      \<longrightarrow> Item r src' n = Inl OutOfBounds)"
  using Uint64Reader_Read_short Uint64Reader_Read_within_cap Item_out_of_range by blast

theorem reader_failures_panic_witness:
  "int (length (payload short_src) + length (spare short_src))
     < uint (Offset (rootPos short_src)) + 8
   \<and> Uint64Reader_Read short_src (rootPos short_src) = Inl SliceBounds
   \<and> uint (Offset (rootPos roomy_src)) + 8
       \<le> int (length (payload roomy_src) + length (spare roomy_src))
   \<and> Uint64Reader_Read roomy_src (rootPos roomy_src) = Inr 0x0807060504030201
   \<and> Prototype exits_reader \<noteq> OtherReader
   \<and> Len exits_reader exits_src = Inr 2
   \<and> (2 :: int) \<le> 7
   \<and> Item exits_reader exits_src 7 = Inl OutOfBounds"
proof -
  have h1: "int (length (payload short_src) + length (spare short_src))
              < uint (Offset (rootPos short_src)) + 8"
    by code_simp
  have h2: "Prototype exits_reader \<noteq> OtherReader"
    by (simp add: exits_reader_def VoluntaryExitReader_def)
  have h3: "Len exits_reader exits_src = Inr 2" by code_simp
  have h4: "(2 :: int) \<le> 7" by simp
  have h5: "uint (Offset (rootPos roomy_src)) + 8
              \<le> int (length (payload roomy_src) + length (spare roomy_src))"
    by code_simp
  have e: "(le_word (take 8 (drop (unat (Offset (rootPos roomy_src)))
              (payload roomy_src @ spare roomy_src))) :: 64 word) = 0x0807060504030201"
    by code_simp
  note T = reader_failures_panic [of short_src "rootPos short_src" exits_reader exits_src 2 7]
  note U = reader_failures_panic [of roomy_src "rootPos roomy_src"]
  have a: "Uint64Reader_Read short_src (rootPos short_src) = Inl SliceBounds"
    using T h1 by blast
  have b: "Uint64Reader_Read roomy_src (rootPos roomy_src) = Inr 0x0807060504030201"
    using U [THEN conjunct2, THEN conjunct1, rule_format, OF h5] unfolding e .
  have c: "Item exits_reader exits_src 7 = Inl OutOfBounds"
    using T h2 h3 h4 by blast
  show ?thesis using h1 a h5 b h2 h3 h4 c by (intro conjI)
qed

subsection \<open>Reading byte blobs\<close>

text \<open>
  Claim C10: \<open>DynamicBytesReader.Read\<close> does not look at the length of the caller's
  slice. Whenever the content \<open>payload[start:end]\<close> exists (both offsets can be read,
  and \<open>start \<le> end \<le> len(payload)\<close>) and the destination is shorter than its
  \<open>end - start\<close> bytes, the call returns normally and the destination holds the first
  \<open>len(v)\<close> bytes of the content. \<open>ByteArrayReader.Read\<close> panics with "invalid size"
  on every destination whose length is not its declared \<open>Size\<close>.
\<close>

theorem DynamicBytesReader_Read_truncates:
  assumes "offset_at src (Offset p) = Inr start"
    and "objectEnd src p = Inr end'"
    and "start \<le> end'"
    and "uint end' \<le> int (length (payload src))"
    and "length v < unat end' - unat start"
  shows "DynamicBytesReader_Read src p v
           = Inr (take (length v) (drop (unat start) (payload src)))
         \<and> (\<forall>Size w. int (length w) \<noteq> Size
              \<longrightarrow> ByteArrayReader_Read src p Size w = Inl InvalidSize)"
proof -
  have b: "unat end' \<le> length (payload src)" using assms(4) by (rule unat_le_length)
  have "copy v (take (unat end' - unat start) (drop (unat start) (payload src)))
        = take (length v) (drop (unat start) (payload src))"
    using assms(5) b by (auto simp: copy_def min_def)
  then show ?thesis
    using assms(1,2) slice_words [OF assms(3,4)]
    by (simp add: DynamicBytesReader_Read_def ByteArrayReader_Read_def)
qed

theorem DynamicBytesReader_Read_truncates_witness:
  "offset_at blobs_src (Offset (rootPos blobs_src)) = Inr 4
   \<and> objectEnd blobs_src (rootPos blobs_src) = Inr 20
   \<and> (4 :: 32 word) \<le> 20
   \<and> uint (20 :: 32 word) \<le> int (length (payload blobs_src))
   \<and> length [0, 0, 0 :: byte] < unat (20 :: 32 word) - unat (4 :: 32 word)
   \<and> DynamicBytesReader_Read blobs_src (rootPos blobs_src) [0, 0, 0] = Inr [8, 0, 0]
   \<and> ByteArrayReader_Read blobs_src (rootPos blobs_src) 4 [0, 0, 0] = Inl InvalidSize"
proof -
  have h1: "offset_at blobs_src (Offset (rootPos blobs_src)) = Inr 4" by code_simp
  have h2: "objectEnd blobs_src (rootPos blobs_src) = Inr 20" by code_simp
  have h3: "(4 :: 32 word) \<le> 20" by simp
  have h4: "uint (20 :: 32 word) \<le> int (length (payload blobs_src))" by code_simp
  have h5: "length [0, 0, 0 :: byte] < unat (20 :: 32 word) - unat (4 :: 32 word)" by simp
  have e: "take (length [0, 0, 0 :: byte]) (drop (unat (4 :: 32 word)) (payload blobs_src))
           = [8, 0, 0]"
    by code_simp
  from DynamicBytesReader_Read_truncates [OF h1 h2 h3 h4 h5]
  have "DynamicBytesReader_Read blobs_src (rootPos blobs_src) [0, 0, 0] = Inr [8, 0, 0]"
    and "ByteArrayReader_Read blobs_src (rootPos blobs_src) 4 [0, 0, 0] = Inl InvalidSize"
    unfolding e by simp_all
  with h1 h2 h3 h4 h5 show ?thesis by blast
qed

subsection \<open>Concrete scenarios\<close>

text \<open>
  Claim C8 (scenario S1): the schema of
  \<open>VoluntaryExit{Epoch: 7, ValidatorIndex: 0x1122334455667788}\<close>, run by
  \<open>EncodeStaticObject\<close>, writes exactly the 16 bytes
  \<open>07 00 00 00 00 00 00 00 88 77 66 55 44 33 22 11\<close>, to a sink in streaming mode and
  into a 16-byte buffer in buffered mode, and decoding those bytes into a zero
  \<open>VoluntaryExit\<close> gives the original value and no error.
\<close>

theorem VoluntaryExit_S1:
  "map_sum id written
     (EncodeStaticObject
        (VoluntaryExit_object \<lparr>Epoch = 7, ValidatorIndex = 0x1122334455667788\<rparr>)
        (stream_encoder quiet_sink))
   = Inr [0x07, 0, 0, 0, 0, 0, 0, 0, 0x88, 0x77, 0x66, 0x55, 0x44, 0x33, 0x22, 0x11]
   \<and> EncodeStaticObject
        (VoluntaryExit_object \<lparr>Epoch = 7, ValidatorIndex = 0x1122334455667788\<rparr>)
        (buffer_encoder (replicate 16 0))
      = Inr \<lparr>outWriter = None, outBuffer = [],
             outDone = [0x07, 0, 0, 0, 0, 0, 0, 0, 0x88, 0x77, 0x66, 0x55, 0x44, 0x33, 0x22, 0x11],
             err = None, offset = 0\<rparr>
   \<and> Decode_VoluntaryExit \<lparr>Epoch = 0, ValidatorIndex = 0\<rparr>
        [0x07, 0, 0, 0, 0, 0, 0, 0, 0x88, 0x77, 0x66, 0x55, 0x44, 0x33, 0x22, 0x11]
      = (None, \<lparr>Epoch = 7, ValidatorIndex = 0x1122334455667788\<rparr>)"
  by code_simp

text \<open>
  Claim C3 (scenario S6). The encoder does what the claim says: the content of the
  \<open>ExecutionPayload\<close> of S6 is the 521 bytes \<open>s6_bytes\<close>, with a fixed region of 508
  bytes, 508 in the offset slot at 436, 510 in the slot at 504, and from 510 on the
  item offsets 8 and 9 followed by \<open>10\<close> and \<open>20 21\<close>. The partial reader does not:
  \<open>Transactions()\<close> is placed at local offset 495, inside \<open>BlockHash\<close>, so the
  list's start is read as 0; the item prototype \<open>DynamicBytesReader\<close> is neither
  static nor dynamic, so \<open>Item(1)\<close> checks no bound and returns the position
  \<open>{1, 0, 521}\<close>; reading there takes the content to start at the offset stored at
  byte 1, which is 0, and copies the payload from its first byte on: a 2-byte
  destination receives \<open>00 00\<close>, not \<open>20 21\<close>.
\<close>

theorem ExecutionPayload_S6_reader_misses:
  "map_sum id written
     (EncodeDynamicObjectContent (ExecutionPayload_object s6_value) (stream_encoder quiet_sink))
   = Inr s6_bytes
   \<and> SizeSSZ_fixed (ExecutionPayload_object s6_value) = 508
   \<and> offset_at \<lparr>payload = s6_bytes, spare = []\<rparr> 436 = Inr 508
   \<and> offset_at \<lparr>payload = s6_bytes, spare = []\<rparr> 504 = Inr 510
   \<and> drop 510 s6_bytes = [8, 0, 0, 0, 9, 0, 0, 0, 0x10, 0x20, 0x21]
   \<and> Item (ExecutionPayloadReader_Transactions (rootPos \<lparr>payload = s6_bytes, spare = []\<rparr>))
        \<lparr>payload = s6_bytes, spare = []\<rparr> 1
      = Inr \<lparr>Offset = 1, NextOffset = 0, ContainerEnd = 521\<rparr>
   \<and> DynamicBytesReader_Read \<lparr>payload = s6_bytes, spare = []\<rparr>
        \<lparr>Offset = 1, NextOffset = 0, ContainerEnd = 521\<rparr> [0, 0]
      = Inr [0, 0]"
  by code_simp

subsection \<open>The effects of the encode operations\<close>

text \<open>
  Every encode operation returns in streaming mode, and whatever it returns is
  reached from the encoder it was given by atomic effects: writes to the sink while
  no error is latched, changes of \<open>enc.offset\<close>, and bytes put into the window.
\<close>

lemma reach_write: "outWriter enc = Some w \<Longrightarrow> err enc = None \<Longrightarrow> reach enc (stream_write w p enc)"
  by (rule r_into_rtranclp) (rule step_write)

lemma reach_offset: "reach enc (enc\<lparr>offset := x\<rparr>)"
  by (rule r_into_rtranclp) (rule step_offset)

lemma reach_buf_put: "buf_put bs enc = Inr enc' \<Longrightarrow> outWriter enc = None \<Longrightarrow> reach enc enc'"
  by (auto simp: buf_put_def split: if_splits intro!: r_into_rtranclp step_fill)

lemma reach_buf_copy: "buf_copy bs enc = Inr enc' \<Longrightarrow> outWriter enc = None \<Longrightarrow> reach enc enc'"
  by (auto simp: buf_copy_def split: if_splits intro!: r_into_rtranclp step_fill)

lemma step_outWriter: "enc_step enc enc' \<Longrightarrow> (outWriter enc' = None) = (outWriter enc = None)"
  by (induction rule: enc_step.induct) (auto simp: stream_write_def split: prod.splits)

lemma reach_outWriter: "reach enc enc' \<Longrightarrow> (outWriter enc' = None) = (outWriter enc = None)"
  by (induction rule: rtranclp_induct) (auto dest: step_outWriter)

lemma runsI: "(\<And>w. outWriter enc = Some w \<Longrightarrow> \<exists>enc'. f enc = Inr enc') \<Longrightarrow>
   (\<And>enc'. f enc = Inr enc' \<Longrightarrow> reach enc enc') \<Longrightarrow> runs f enc"
  by (auto simp: runs_def)

lemma runs_seq:
  assumes "runs f enc" and "\<And>enc1. f enc = Inr enc1 \<Longrightarrow> runs g enc1"
  shows "runs (\<lambda>e. case f e of Inl p \<Rightarrow> Inl p | Inr e1 \<Rightarrow> g e1) enc"
proof (rule runsI)
  fix w assume w: "outWriter enc = Some w"
  then obtain enc1 where 1: "f enc = Inr enc1" using assms(1) by (auto simp: runs_def)
  then have "reach enc enc1" using assms(1) by (auto simp: runs_def)
  then have "outWriter enc1 \<noteq> None" using w reach_outWriter by fastforce
  then obtain enc2 where "g enc1 = Inr enc2" using assms(2) [OF 1] by (auto simp: runs_def)
  then show "\<exists>enc'. (case f enc of Inl p \<Rightarrow> Inl p | Inr e1 \<Rightarrow> g e1) = Inr enc'" using 1 by simp
next
  fix enc' assume "(case f enc of Inl p \<Rightarrow> Inl p | Inr e1 \<Rightarrow> g e1) = Inr enc'"
  then obtain enc1 where 1: "f enc = Inr enc1" and 2: "g enc1 = Inr enc'"
    by (auto split: sum.splits)
  have "reach enc enc1" using assms(1) 1 by (auto simp: runs_def)
  moreover have "reach enc1 enc'" using assms(2) [OF 1] 2 by (auto simp: runs_def)
  ultimately show "reach enc enc'" by simp
qed

lemma runs_EncodeUint64: "runs (EncodeUint64 n) enc"
  by (rule runsI) (auto simp: EncodeUint64_def intro: reach_write reach_buf_put split: option.splits if_splits)

lemma runs_EncodeUint256: "runs (EncodeUint256 n) enc"
  by (rule runsI) (auto simp: EncodeUint256_def intro: reach_write reach_buf_copy split: option.splits if_splits)

lemma runs_EncodeStaticBytes: "runs (EncodeStaticBytes n) enc"
  by (rule runsI) (auto simp: EncodeStaticBytes_def intro: reach_write reach_buf_copy split: option.splits if_splits)

lemma runs_EncodeDynamicBytesContent: "runs (EncodeDynamicBytesContent n) enc"
  by (rule runsI) (auto simp: EncodeDynamicBytesContent_def intro: reach_write reach_buf_copy split: option.splits if_splits)

lemma runs_offset_slot:
  assumes "\<And>e. reach e (advance e)"
  shows "runs (offset_slot advance) enc"
proof (rule runsI)
  fix w assume "outWriter enc = Some w"
  then show "\<exists>enc'. offset_slot advance enc = Inr enc'" by (simp add: offset_slot_def)
next
  fix enc' assume a: "offset_slot advance enc = Inr enc'"
  show "reach enc enc'"
  proof (cases "outWriter enc")
    case None
    then obtain e1 where "buf_put (le_bytes 4 (offset enc)) enc = Inr e1" "enc' = advance e1"
      using a by (auto simp: offset_slot_def split: sum.splits)
    then show ?thesis using None reach_buf_put assms by (meson rtranclp_trans)
  next
    case (Some w)
    show ?thesis
    proof (cases "err enc = None")
      case True
      then have "enc' = advance (stream_write w (le_bytes 4 (offset enc)) enc)"
        using a Some by (simp add: offset_slot_def)
      then show ?thesis using reach_write [OF Some True] assms by (meson rtranclp_trans)
    next
      case False
      then show ?thesis using a Some by (auto simp: offset_slot_def)
    qed
  qed
qed


lemma reach_dynamic_bytes_sizes: "reach e (dynamic_bytes_sizes blobs e)"
proof (induction blobs arbitrary: e)
  case Nil then show ?case by simp
next
  case (Cons b bs)
  have "reach e (e\<lparr>offset := offset e + of_nat (4 + length b)\<rparr>)" by (rule reach_offset)
  with Cons show ?case by (simp del: of_nat_add) (meson rtranclp_trans)
qed

lemma reach_dynamic_objects_sizes: "reach e (dynamic_objects_sizes objs e)"
proof (induction objs arbitrary: e)
  case Nil then show ?case by simp
next
  case (Cons b bs)
  have "reach e (e\<lparr>offset := offset e + (4 + SizeSSZ b)\<rparr>)" by (rule reach_offset)
  with Cons show ?case by simp (meson rtranclp_trans)
qed

lemma runs_EncodeDynamicBytesOffset: "runs (EncodeDynamicBytesOffset b) enc"
  unfolding EncodeDynamicBytesOffset_def by (rule runs_offset_slot) (rule reach_offset)

lemma runs_EncodeDynamicObjectOffset: "runs (EncodeDynamicObjectOffset b) enc"
  unfolding EncodeDynamicObjectOffset_def by (rule runs_offset_slot) (rule reach_offset)

lemma runs_EncodeSliceOfUint64sOffset: "runs (EncodeSliceOfUint64sOffset b) enc"
  unfolding EncodeSliceOfUint64sOffset_def by (rule runs_offset_slot) (simp add: reach_offset)

lemma runs_EncodeSliceOfStaticBytesOffset: "runs (EncodeSliceOfStaticBytesOffset b) enc"
  unfolding EncodeSliceOfStaticBytesOffset_def by (rule runs_offset_slot) (simp add: reach_offset)

lemma runs_EncodeSliceOfStaticObjectsOffset: "runs (EncodeSliceOfStaticObjectsOffset b) enc"
  unfolding EncodeSliceOfStaticObjectsOffset_def by (rule runs_offset_slot) (simp add: reach_offset)

lemma runs_EncodeSliceOfDynamicBytesOffset: "runs (EncodeSliceOfDynamicBytesOffset b) enc"
  unfolding EncodeSliceOfDynamicBytesOffset_def
  by (rule runs_offset_slot) (rule reach_dynamic_bytes_sizes)

lemma runs_EncodeSliceOfDynamicObjectsOffset: "runs (EncodeSliceOfDynamicObjectsOffset b) enc"
  unfolding EncodeSliceOfDynamicObjectsOffset_def
  by (rule runs_offset_slot) (rule reach_dynamic_objects_sizes)

lemma reach_uint64s_stream: "reach enc (uint64s_stream ns enc)"
proof (induction ns arbitrary: enc)
  case Nil then show ?case by simp
next
  case (Cons n ns)
  show ?case
  proof (cases "err enc = None \<and> outWriter enc \<noteq> None")
    case True
    then obtain w where w: "outWriter enc = Some w" and e: "err enc = None" by auto
    have "reach enc (stream_write w (le_bytes 8 n) enc)" using w e by (rule reach_write)
    then show ?thesis using Cons [of "stream_write w (le_bytes 8 n) enc"] w e
      by simp
  next
    case False then show ?thesis by (auto split: option.splits)
  qed
qed

lemma reach_uint64s_buffer:
  "uint64s_buffer ns enc = Inr enc' \<Longrightarrow> outWriter enc = None \<Longrightarrow> reach enc enc'"
proof (induction ns arbitrary: enc)
  case Nil then show ?case by simp
next
  case (Cons n ns)
  from Cons.prems obtain e1 where 1: "buf_put (le_bytes 8 n) enc = Inr e1"
    and 2: "uint64s_buffer ns e1 = Inr enc'" by (auto split: sum.splits)
  have r: "reach enc e1" using 1 Cons.prems(2) by (rule reach_buf_put)
  then have "outWriter e1 = None" using Cons.prems(2) reach_outWriter by blast
  then have "reach e1 enc'" using Cons.IH 2 by blast
  with r show ?case by simp
qed

lemma runs_EncodeSliceOfUint64sContent: "runs (EncodeSliceOfUint64sContent ns) enc"
  by (rule runsI)
     (auto simp: EncodeSliceOfUint64sContent_def reach_uint64s_stream
           intro: reach_uint64s_buffer split: option.splits)

lemma reach_blobs_stream: "reach enc (blobs_stream blobs enc)"
proof (induction blobs arbitrary: enc)
  case Nil then show ?case by simp
next
  case (Cons n ns)
  show ?case
  proof (cases "err enc = None \<and> outWriter enc \<noteq> None")
    case True
    then obtain w where w: "outWriter enc = Some w" and e: "err enc = None" by auto
    have "reach enc (stream_write w n enc)" using w e by (rule reach_write)
    then show ?thesis using Cons [of "stream_write w n enc"] w e
      by simp
  next
    case False then show ?thesis by (auto split: option.splits)
  qed
qed

lemma reach_blobs_buffer:
  "blobs_buffer blobs enc = Inr enc' \<Longrightarrow> outWriter enc = None \<Longrightarrow> reach enc enc'"
proof (induction blobs arbitrary: enc)
  case Nil then show ?case by simp
next
  case (Cons n ns)
  from Cons.prems obtain e1 where 1: "buf_copy n enc = Inr e1"
    and 2: "blobs_buffer ns e1 = Inr enc'" by (auto split: sum.splits)
  have r: "reach enc e1" using 1 Cons.prems(2) by (rule reach_buf_copy)
  then have "outWriter e1 = None" using Cons.prems(2) reach_outWriter by blast
  then have "reach e1 enc'" using Cons.IH 2 by blast
  with r show ?case by simp
qed

lemma runs_EncodeArrayOfStaticBytes: "runs (EncodeArrayOfStaticBytes blobs) enc"
  by (rule runsI)
     (auto simp: EncodeArrayOfStaticBytes_def reach_blobs_stream
           intro: reach_blobs_buffer split: option.splits)

lemma runs_EncodeSliceOfStaticBytesContent: "runs (EncodeSliceOfStaticBytesContent blobs) enc"
  by (rule runsI)
     (auto simp: EncodeSliceOfStaticBytesContent_def reach_blobs_stream
           intro: reach_blobs_buffer split: option.splits)

lemma reach_item_offsets_stream: "reach enc (fst (item_offsets_stream blobs enc))"
proof (induction blobs arbitrary: enc)
  case Nil then show ?case by simp
next
  case (Cons n ns)
  show ?case
  proof (cases "err enc = None \<and> outWriter enc \<noteq> None")
    case True
    then obtain w where w: "outWriter enc = Some w" and e: "err enc = None" by auto
    let ?e1 = "stream_write w (le_bytes 4 (offset enc)) enc"
    have "reach enc ?e1" using w e by (rule reach_write)
    moreover have "reach ?e1 (?e1\<lparr>offset := offset enc + of_nat (length n)\<rparr>)" by (rule reach_offset)
    ultimately show ?thesis
      using Cons [of "?e1\<lparr>offset := offset enc + of_nat (length n)\<rparr>"] w e
      by simp
  next
    case False then show ?thesis by (auto split: option.splits)
  qed
qed

lemma reach_item_offsets_buffer:
  "item_offsets_buffer blobs enc = Inr enc' \<Longrightarrow> outWriter enc = None \<Longrightarrow> reach enc enc'"
proof (induction blobs arbitrary: enc)
  case Nil then show ?case by simp
next
  case (Cons n ns)
  from Cons.prems obtain e1 where 1: "buf_put (le_bytes 4 (offset enc)) enc = Inr e1"
    and 2: "item_offsets_buffer ns (e1\<lparr>offset := offset e1 + of_nat (length n)\<rparr>) = Inr enc'"
    by (auto split: sum.splits)
  have r: "reach enc e1" using 1 Cons.prems(2) by (rule reach_buf_put)
  have r2: "reach e1 (e1\<lparr>offset := offset e1 + of_nat (length n)\<rparr>)" by (rule reach_offset)
  have "outWriter (e1\<lparr>offset := offset e1 + of_nat (length n)\<rparr>) = None"
    using r Cons.prems(2) reach_outWriter by simp
  then have "reach (e1\<lparr>offset := offset e1 + of_nat (length n)\<rparr>) enc'" using Cons.IH 2 by blast
  with r r2 show ?case by (meson rtranclp_trans)
qed

lemma runs_EncodeSliceOfDynamicBytesContent: "runs (EncodeSliceOfDynamicBytesContent blobs) enc"
proof (rule runsI)
  fix w assume "outWriter enc = Some w"
  then show "\<exists>enc'. EncodeSliceOfDynamicBytesContent blobs enc = Inr enc'"
    by (simp add: EncodeSliceOfDynamicBytesContent_def offsetDynamics_def split: prod.splits)
next
  fix enc' assume a: "EncodeSliceOfDynamicBytesContent blobs enc = Inr enc'"
  let ?e0 = "enc\<lparr>offset := of_nat (4 * length blobs)\<rparr>"
  have r0: "reach enc ?e0" by (rule reach_offset)
  show "reach enc enc'"
  proof (cases "outWriter enc")
    case None
    then obtain e1 where 1: "item_offsets_buffer blobs ?e0 = Inr e1"
      and 2: "blobs_buffer blobs e1 = Inr enc'"
      using a by (auto simp: EncodeSliceOfDynamicBytesContent_def offsetDynamics_def split: sum.splits)
    have r1: "reach ?e0 e1" using 1 None by (auto intro: reach_item_offsets_buffer)
    then have "outWriter e1 = None" using None reach_outWriter by fastforce
    then have "reach e1 enc'" using 2 by (rule reach_blobs_buffer [rotated])
    with r0 r1 show ?thesis by (meson rtranclp_trans)
  next
    case (Some w)
    let ?r = "item_offsets_stream blobs ?e0"
    have r1: "reach ?e0 (fst ?r)" by (rule reach_item_offsets_stream)
    have "enc' = fst ?r \<or> enc' = blobs_stream blobs (fst ?r)"
      using a Some by (auto simp: EncodeSliceOfDynamicBytesContent_def offsetDynamics_def split: prod.splits if_splits)
    then show ?thesis using r0 r1 reach_blobs_stream [of "fst ?r" blobs]
      by (metis rtranclp_trans)
  qed
qed


lemma reach_object_offsets_stream: "reach enc (fst (object_offsets_stream objs enc))"
proof (induction objs arbitrary: enc)
  case Nil then show ?case by simp
next
  case (Cons n ns)
  show ?case
  proof (cases "err enc = None \<and> outWriter enc \<noteq> None")
    case True
    then obtain w where w: "outWriter enc = Some w" and e: "err enc = None" by auto
    let ?e1 = "stream_write w (le_bytes 4 (offset enc)) enc"
    have "reach enc ?e1" using w e by (rule reach_write)
    moreover have "reach ?e1 (?e1\<lparr>offset := offset enc + SizeSSZ n\<rparr>)" by (rule reach_offset)
    ultimately show ?thesis
      using Cons [of "?e1\<lparr>offset := offset enc + SizeSSZ n\<rparr>"] w e
      by simp
  next
    case False then show ?thesis by (auto split: option.splits)
  qed
qed

lemma reach_object_offsets_buffer:
  "object_offsets_buffer objs enc = Inr enc' \<Longrightarrow> outWriter enc = None \<Longrightarrow> reach enc enc'"
proof (induction objs arbitrary: enc)
  case Nil then show ?case by simp
next
  case (Cons n ns)
  from Cons.prems obtain e1 where 1: "buf_put (le_bytes 4 (offset enc)) enc = Inr e1"
    and 2: "object_offsets_buffer ns (e1\<lparr>offset := offset e1 + SizeSSZ n\<rparr>) = Inr enc'"
    by (auto split: sum.splits)
  have r: "reach enc e1" using 1 Cons.prems(2) by (rule reach_buf_put)
  have r2: "reach e1 (e1\<lparr>offset := offset e1 + SizeSSZ n\<rparr>)" by (rule reach_offset)
  have "outWriter (e1\<lparr>offset := offset e1 + SizeSSZ n\<rparr>) = None"
    using r Cons.prems(2) reach_outWriter by simp
  then have "reach (e1\<lparr>offset := offset e1 + SizeSSZ n\<rparr>) enc'" using Cons.IH 2 by blast
  with r r2 show ?case by (meson rtranclp_trans)
qed

lemma object_offsets_returns:
  "outWriter enc = Some w \<Longrightarrow> \<exists>r. object_offsets objs enc = Inr r"
  by (simp add: object_offsets_def)

lemma reach_object_offsets:
  "object_offsets objs enc = Inr (enc', b) \<Longrightarrow> reach enc enc'"
  using reach_object_offsets_stream [of enc objs]
  by (auto simp: object_offsets_def split: option.splits sum.splits
           intro: reach_object_offsets_buffer)

lemma runs_skip: "f enc = Inr enc \<Longrightarrow> runs f enc"
  by (simp add: runs_def)

lemma runs_via:
  assumes "reach enc e0" and "runs g e0" and "f enc = g e0"
  shows "runs f enc"
proof (rule runsI)
  fix w assume "outWriter enc = Some w"
  then have "outWriter e0 \<noteq> None" using assms(1) reach_outWriter by fastforce
  then show "\<exists>enc'. f enc = Inr enc'" using assms(2,3) by (auto simp: runs_def)
next
  fix enc' assume "f enc = Inr enc'"
  then have "reach e0 enc'" using assms(2,3) by (auto simp: runs_def)
  with assms(1) show "reach enc enc'" by simp
qed

lemma runs_seq':
  assumes "runs f enc" and "\<And>enc1. f enc = Inr enc1 \<Longrightarrow> runs g enc1"
    and "h enc = (case f enc of Inl p \<Rightarrow> Inl p | Inr e1 \<Rightarrow> g e1)"
  shows "runs h enc"
  using runs_seq [OF assms(1,2)] assms(3) by (simp add: runs_def)

lemma runs_all:
  "runs (Define d) enc1"
  "runs (walk ds) enc2"
  "runs (EncodeStaticObject o3) enc3"
  "runs (EncodeDynamicObjectContent o4) enc4"
  "runs (EncodeSliceOfStaticObjectsContent os5) enc5"
  "runs (EncodeSliceOfDynamicObjectsContent os6) enc6"
  "runs (dynamic_objects_content os7) enc7"
proof (induction d enc1 and ds enc2 and o3 enc3 and o4 enc4 and os5 enc5 and os6 enc6 and os7 enc7
    rule: Define_walk_EncodeStaticObject_EncodeDynamicObjectContent_EncodeSliceOfStaticObjectsContent_EncodeSliceOfDynamicObjectsContent_dynamic_objects_content.induct)
  case (20 enc)
  show ?case by (rule runs_skip) simp
next
  case (21 d ds enc)
  show ?case by (rule runs_seq' [OF "21.IH"(1) "21.IH"(2)]) simp_all
next
  case (22 sf st ds enc)
  show ?case
  proof (cases "err enc = None")
    case True
    show ?thesis by (rule runs_via [OF rtranclp.rtrancl_refl "22.IH"]) (simp_all add: True)
  next
    case False then show ?thesis by (intro runs_skip) simp
  qed
next
  case (23 sf st ds enc)
  show ?case
  proof (cases "err enc = None")
    case True
    have "reach enc (offsetDynamics sf enc)" unfolding offsetDynamics_def by (rule reach_offset)
    then show ?thesis by (rule runs_via [OF _ "23.IH"]) (simp_all add: True)
  next
    case False then show ?thesis by (intro runs_skip) simp
  qed
next
  case (24 enc)
  show ?case by (rule runs_skip) simp
next
  case (25 sf st ds objects enc)
  show ?case
  proof (cases "err enc = None")
    case True
    show ?thesis
      by (rule runs_seq' [where f = "walk ds" and g = "EncodeSliceOfStaticObjectsContent objects"])
         (use True "25.IH" in simp_all)
  next
    case False then show ?thesis by (intro runs_skip) simp
  qed
next
  case (26 objects enc)
  let ?e0 = "offsetDynamics (of_nat (4 * length objects)) enc"
  have r0: "reach enc ?e0" unfolding offsetDynamics_def by (rule reach_offset)
  show ?case
  proof (rule runsI)
    fix w assume w: "outWriter enc = Some w"
    then have w0: "outWriter ?e0 = Some w" by (simp add: offsetDynamics_def)
    then obtain e1 b where 1: "object_offsets objects ?e0 = Inr (e1, b)"
      using object_offsets_returns [OF w0, of objects] by auto
    show "\<exists>enc'. EncodeSliceOfDynamicObjectsContent objects enc = Inr enc'"
    proof (cases b)
      case True then show ?thesis using 1 by simp
    next
      case False
      have "reach ?e0 e1" using 1 by (rule reach_object_offsets)
      then have "outWriter e1 \<noteq> None" using w0 reach_outWriter by fastforce
      moreover have "runs (dynamic_objects_content objects) e1"
        using "26.IH" [OF 1 refl] False by simp
      ultimately show ?thesis using 1 False by (auto simp: runs_def)
    qed
  next
    fix enc' assume a: "EncodeSliceOfDynamicObjectsContent objects enc = Inr enc'"
    then obtain e1 b where 1: "object_offsets objects ?e0 = Inr (e1, b)"
      by (auto split: sum.splits)
    have r1: "reach ?e0 e1" using 1 by (rule reach_object_offsets)
    show "reach enc enc'"
    proof (cases b)
      case True then show ?thesis using a 1 r0 r1 by simp
    next
      case False
      have "runs (dynamic_objects_content objects) e1"
        using "26.IH" [OF 1 refl] False by simp
      moreover have "dynamic_objects_content objects e1 = Inr enc'" using a 1 False by simp
      ultimately have "reach e1 enc'" by (simp add: runs_def)
      with r0 r1 show ?thesis by (meson rtranclp_trans)
    qed
  qed
next
  case (27 enc)
  show ?case by (rule runs_skip) simp
next
  case (28 sf st ds objects enc)
  show ?case
  proof (cases "err enc = None")
    case True
    have r0: "reach enc (offsetDynamics sf enc)" unfolding offsetDynamics_def by (rule reach_offset)
    have "runs (\<lambda>e. case walk ds e of Inl p \<Rightarrow> Inl p | Inr e1 \<Rightarrow> dynamic_objects_content objects e1)
            (offsetDynamics sf enc)"
      by (rule runs_seq) (use True "28.IH" in simp_all)
    then show ?thesis by (rule runs_via [OF r0]) (simp add: True)
  next
    case False then show ?thesis by (intro runs_skip) simp
  qed
qed (simp_all add: runs_EncodeUint64 runs_EncodeUint256 runs_EncodeStaticBytes
       runs_EncodeDynamicBytesContent runs_EncodeDynamicBytesOffset
       runs_EncodeDynamicObjectOffset runs_EncodeSliceOfUint64sOffset
       runs_EncodeSliceOfStaticBytesOffset runs_EncodeSliceOfStaticObjectsOffset
       runs_EncodeSliceOfDynamicBytesOffset runs_EncodeSliceOfDynamicObjectsOffset
       runs_EncodeSliceOfUint64sContent runs_EncodeArrayOfStaticBytes
       runs_EncodeSliceOfStaticBytesContent runs_EncodeSliceOfDynamicBytesContent)

subsection \<open>Latched write errors\<close>

lemma reach_invariant:
  assumes "reach enc enc'" and "P enc" and "\<And>a b. P a \<Longrightarrow> enc_step a b \<Longrightarrow> P b"
  shows "P enc'"
  using assms by (induction rule: rtranclp_induct) auto

lemma step_latched:
  "enc_step a b \<Longrightarrow> outWriter a = Some w \<and> err a = Some e \<Longrightarrow> outWriter b = Some w \<and> err b = Some e"
  by (induction rule: enc_step.induct) auto

lemma runs_latched:
  assumes "runs f enc" and "outWriter enc = Some w" and "err enc = Some e"
  shows "\<exists>enc'. f enc = Inr enc' \<and> outWriter enc' = Some w \<and> err enc' = Some e"
proof -
  obtain enc' where 1: "f enc = Inr enc'" and 2: "reach enc enc'"
    using assms(1,2) by (auto simp: runs_def)
  have "outWriter enc' = Some w \<and> err enc' = Some e"
    by (rule reach_invariant [OF 2, where P = "\<lambda>a. outWriter a = Some w \<and> err a = Some e"])
       (use assms(2,3) step_latched in auto)
  with 1 show ?thesis by simp
qed

lemma step_pending:
  assumes "enc_step a b" and "pending i k e rest a"
  shows "pending i k e rest b"
  using assms
proof (induction rule: enc_step.induct)
  case (step_write enc w p)
  then obtain j where j: "j \<le> i" "script w = replicate j None @ Some (k, e) # rest"
    by (auto simp: pending_def)
  show ?case
  proof (cases j)
    case 0
    then show ?thesis using j step_write by (auto simp: pending_def stream_write_def Write_def)
  next
    case (Suc j')
    then have "j' \<le> i" using j by simp
    then show ?thesis using j Suc step_write
      by (auto simp: pending_def stream_write_def Write_def)
  qed
next
  case (step_offset enc x)
  then show ?case by (simp add: pending_def)
next
  case (step_fill enc bs)
  then show ?case by (simp add: pending_def)
qed

lemma runs_pending:
  assumes "runs f enc" and "outWriter enc = Some w" and "err enc = None"
    and "script w = replicate i None @ Some (k, e) # rest"
  shows "\<exists>enc' w'. f enc = Inr enc' \<and> outWriter enc' = Some w' \<and>
           ((err enc' = None \<and> (\<exists>j\<le>i. script w' = replicate j None @ Some (k, e) # rest))
            \<or> (err enc' = Some e \<and> script w' = rest))"
proof -
  obtain enc' where 1: "f enc = Inr enc'" and 2: "reach enc enc'"
    using assms(1,2) by (auto simp: runs_def)
  have "pending i k e rest enc" using assms(2,3,4) by (auto simp: pending_def)
  then have "pending i k e rest enc'"
    by (rule reach_invariant [OF 2]) (rule step_pending)
  with 1 show ?thesis by (auto simp: pending_def)
qed

text \<open>
  Claim C5. In streaming mode (\<open>outWriter\<close> is set): (1) on an encoder with a latched
  error \<open>e\<close>, every encode call (every schema call \<open>d\<close>, the ones that run a whole
  object included) returns with the sink exactly as it was, nothing written, and
  with \<open>e\<close> still latched; (2) when the sink's first failure, with error \<open>e0\<close>, is
  \<open>i\<close> writes away, then after any sequence of encode calls either that write has
  not been reached and no error is latched, or it has been made, \<open>e0\<close> is the latched
  error, and the script stands where the failing write left it: no write was
  attempted after the failed one. The error field at the end of the walk is what
  the encoder has to surface.
\<close>

theorem first_write_error_latches:
  "(outWriter enc = Some w \<longrightarrow> err enc = Some e \<longrightarrow>
      (\<exists>enc'. Define d enc = Inr enc' \<and> outWriter enc' = Some w \<and> err enc' = Some e))
   \<and> (outWriter enc0 = Some w0 \<longrightarrow> err enc0 = None \<longrightarrow>
      script w0 = replicate i None @ Some (k, e0) # rest \<longrightarrow>
      (\<exists>enc' w'. walk ds enc0 = Inr enc' \<and> outWriter enc' = Some w' \<and>
         ((err enc' = None \<and> (\<exists>j\<le>i. script w' = replicate j None @ Some (k, e0) # rest))
          \<or> (err enc' = Some e0 \<and> script w' = rest))))"
  using runs_latched [OF runs_all(1)] runs_pending [OF runs_all(2)] by blast

theorem first_write_error_latches_witness:
  "outWriter latched_encoder = Some latched_sink
   \<and> err latched_encoder = Some (WriteError 1)
   \<and> (\<exists>enc'. Define (DefineStaticObject (VoluntaryExit_object \<lparr>Epoch = 7, ValidatorIndex = 8\<rparr>))
                latched_encoder = Inr enc'
        \<and> outWriter enc' = Some latched_sink \<and> err enc' = Some (WriteError 1))
   \<and> outWriter (stream_encoder failing_sink) = Some failing_sink
   \<and> err (stream_encoder failing_sink) = None
   \<and> script failing_sink = replicate 1 None @ Some (3, WriteError 1) # [None]
   \<and> (\<exists>enc' w'. walk [DefineUint64 7, DefineUint64 8, DefineUint64 9]
                   (stream_encoder failing_sink) = Inr enc'
        \<and> outWriter enc' = Some w'
        \<and> ((err enc' = None
             \<and> (\<exists>j\<le>1. script w' = replicate j None @ Some (3, WriteError 1) # [None]))
            \<or> (err enc' = Some (WriteError 1) \<and> script w' = [None])))
   \<and> walk [DefineUint64 7, DefineUint64 8, DefineUint64 9] (stream_encoder failing_sink)
      = Inr \<lparr>outWriter = Some \<lparr>accepted = [7, 0, 0, 0, 0, 0, 0, 0, 8, 0, 0], script = [None]\<rparr>,
             outBuffer = [], outDone = [], err = Some (WriteError 1), offset = 0\<rparr>"
proof -
  have h1: "outWriter latched_encoder = Some latched_sink" by code_simp
  have h2: "err latched_encoder = Some (WriteError 1)" by code_simp
  have h3: "outWriter (stream_encoder failing_sink) = Some failing_sink" by code_simp
  have h4: "err (stream_encoder failing_sink) = None" by code_simp
  have h5: "script failing_sink = replicate 1 None @ Some (3, WriteError 1) # [None]" by code_simp
  have h6: "walk [DefineUint64 7, DefineUint64 8, DefineUint64 9] (stream_encoder failing_sink)
      = Inr \<lparr>outWriter = Some \<lparr>accepted = [7, 0, 0, 0, 0, 0, 0, 0, 8, 0, 0], script = [None]\<rparr>,
             outBuffer = [], outDone = [], err = Some (WriteError 1), offset = 0\<rparr>"
    by code_simp
  from first_write_error_latches
    [of latched_encoder latched_sink "WriteError 1"
        "DefineStaticObject (VoluntaryExit_object \<lparr>Epoch = 7, ValidatorIndex = 8\<rparr>)"
        "stream_encoder failing_sink" failing_sink 1 3 "WriteError 1" "[None]"
        "[DefineUint64 7, DefineUint64 8, DefineUint64 9]"]
  show ?thesis using h1 h2 h3 h4 h5 h6 by blast
qed

subsection \<open>Streaming and buffered output\<close>

lemma Write_never_fails:
  "never_fails w \<Longrightarrow>
     Write w p = (\<lparr>accepted = accepted w @ p, script = tl (script w)\<rparr>, None)"
  by (cases "script w") (auto simp: never_fails_def Write_def)

lemma never_fails_tl: "never_fails w \<Longrightarrow> never_fails \<lparr>accepted = a, script = tl (script w)\<rparr>"
  by (cases "script w") (auto simp: never_fails_def)

lemma good_write:
  assumes "good es" and "outWriter es = Some w"
  shows "streams es p (offset es) (stream_write w p es)"
proof -
  have nf: "never_fails w" and e: "err es = None" using assms by (auto simp: good_def)
  let ?w' = "\<lparr>accepted = accepted w @ p, script = tl (script w)\<rparr>"
  have "stream_write w p es = es\<lparr>outWriter := Some ?w', offset := offset es\<rparr>"
    using Write_never_fails [OF nf] e by (simp add: stream_write_def)
  moreover have "never_fails ?w'" using nf by (rule never_fails_tl)
  ultimately show ?thesis using assms(2) unfolding streams_def by auto
qed

lemma streams_good: "good es \<Longrightarrow> streams es X o' es' \<Longrightarrow> good es'"
  by (auto simp: good_def streams_def)

lemma streams_offset: "streams es X o' es' \<Longrightarrow> offset es' = o'"
  by (auto simp: streams_def)

lemma streams_outWriter: "streams es X o' es' \<Longrightarrow> outWriter es' \<noteq> None"
  by (auto simp: streams_def)

lemma streams_refl: "good es \<Longrightarrow> streams es [] (offset es) es"
proof -
  assume "good es"
  then obtain w where w: "outWriter es = Some w" "never_fails w" by (auto simp: good_def)
  then have "es = es\<lparr>outWriter := Some w, offset := offset es\<rparr>" by simp
  with w show ?thesis unfolding streams_def by (metis append_Nil2)
qed

lemma streams_trans:
  "streams es X o1 es1 \<Longrightarrow> streams es1 Y o2 es2 \<Longrightarrow> streams es (X @ Y) o2 es2"
  by (auto simp: streams_def)

lemma streams_set_offset: "streams es X o1 es1 \<Longrightarrow> streams es X o2 (es1\<lparr>offset := o2\<rparr>)"
  by (auto simp: streams_def)

lemma streams_from_offset: "streams (es\<lparr>offset := o0\<rparr>) X o1 es1 \<Longrightarrow> streams es X o1 es1"
  by (auto simp: streams_def)

lemma good_set_offset: "good es \<Longrightarrow> good (es\<lparr>offset := x\<rparr>)"
  by (simp add: good_def)

lemma fills_fills: "fills Y o2 (fills X o1 eb) = fills (X @ Y) o2 eb"
  by (simp add: fills_def add.commute)

lemma fills_simps [simp]:
  "outWriter (fills X o' eb) = outWriter eb"
  "err (fills X o' eb) = err eb"
  "offset (fills X o' eb) = o'"
  "length (outBuffer (fills X o' eb)) = length (outBuffer eb) - length X"
  by (simp_all add: fills_def)

lemma fills_set_offset: "(fills X o1 eb)\<lparr>offset := o2\<rparr> = fills X o2 eb"
  by (simp add: fills_def)

lemma fills_from_offset: "fills X o1 (eb\<lparr>offset := o0\<rparr>) = fills X o1 eb"
  by (simp add: fills_def)

lemma fills_nil: "fills [] (offset eb) eb = eb"
  by (simp add: fills_def)

lemma buf_put_fills:
  "length bs \<le> length (outBuffer eb) \<Longrightarrow> buf_put bs eb = Inr (fills bs (offset eb) eb)"
  by (simp add: buf_put_def fills_def)

lemma buf_copy_fills:
  "length bs \<le> length (outBuffer eb) \<Longrightarrow> buf_copy bs eb = Inr (fills bs (offset eb) eb)"
  by (simp add: buf_copy_def fills_def)

lemma agreeI:
  assumes "good es \<Longrightarrow> f es = Inr es'" and "good es \<Longrightarrow> streams es X o' es'"
    and "\<And>eb. good es \<Longrightarrow> outWriter eb = None \<Longrightarrow> err eb = None \<Longrightarrow> offset eb = offset es \<Longrightarrow>
           length X \<le> length (outBuffer eb) \<Longrightarrow> f eb = Inr (fills X o' eb)"
  shows "agree f es"
  unfolding agree_def using assms by blast

lemma agree_cong:
  assumes "agree g es" and "good es \<Longrightarrow> f es = g es"
    and "\<And>eb. outWriter eb = None \<Longrightarrow> err eb = None \<Longrightarrow> f eb = g eb"
  shows "agree f es"
  using assms unfolding agree_def by auto

lemma agree_seq:
  assumes f: "agree f es" and g: "\<And>es1. f es = Inr es1 \<Longrightarrow> agree g es1"
  shows "agree (\<lambda>e. case f e of Inl p \<Rightarrow> Inl p | Inr e1 \<Rightarrow> g e1) es"
  unfolding agree_def
proof (intro impI)
  assume good: "good es"
  from f good obtain X o1 es1 where 1: "f es = Inr es1" and s1: "streams es X o1 es1"
    and b1: "\<And>eb. outWriter eb = None \<Longrightarrow> err eb = None \<Longrightarrow> offset eb = offset es \<Longrightarrow>
               length X \<le> length (outBuffer eb) \<Longrightarrow> f eb = Inr (fills X o1 eb)"
    unfolding agree_def by blast
  have good1: "good es1" using good s1 by (rule streams_good)
  have off1: "offset es1 = o1" using s1 by (rule streams_offset)
  from g [OF 1] good1 obtain Y o2 es2 where 2: "g es1 = Inr es2" and s2: "streams es1 Y o2 es2"
    and b2: "\<And>eb. outWriter eb = None \<Longrightarrow> err eb = None \<Longrightarrow> offset eb = offset es1 \<Longrightarrow>
               length Y \<le> length (outBuffer eb) \<Longrightarrow> g eb = Inr (fills Y o2 eb)"
    unfolding agree_def by blast
  have "(case f es of Inl p \<Rightarrow> Inl p | Inr e1 \<Rightarrow> g e1) = Inr es2" using 1 2 by simp
  moreover have "streams es (X @ Y) o2 es2" using s1 s2 by (rule streams_trans)
  moreover have "\<forall>eb. outWriter eb = None \<and> err eb = None \<and> offset eb = offset es
                    \<and> length (X @ Y) \<le> length (outBuffer eb)
                 \<longrightarrow> (case f eb of Inl p \<Rightarrow> Inl p | Inr e1 \<Rightarrow> g e1) = Inr (fills (X @ Y) o2 eb)"
  proof (intro allI impI)
    fix eb :: Encoder
    assume a: "outWriter eb = None \<and> err eb = None \<and> offset eb = offset es
                    \<and> length (X @ Y) \<le> length (outBuffer eb)"
    then have fe: "f eb = Inr (fills X o1 eb)" using b1 by simp
    have "g (fills X o1 eb) = Inr (fills Y o2 (fills X o1 eb))"
      using a off1 by (intro b2) auto
    then show "(case f eb of Inl p \<Rightarrow> Inl p | Inr e1 \<Rightarrow> g e1) = Inr (fills (X @ Y) o2 eb)"
      using fe by (simp add: fills_fills)
  qed
  ultimately show "\<exists>X o' es'. (case f es of Inl p \<Rightarrow> Inl p | Inr e1 \<Rightarrow> g e1) = Inr es' \<and>
       streams es X o' es' \<and>
       (\<forall>eb. outWriter eb = None \<and> err eb = None \<and> offset eb = offset es \<and>
             length X \<le> length (outBuffer eb) \<longrightarrow>
             (case f eb of Inl p \<Rightarrow> Inl p | Inr e1 \<Rightarrow> g e1) = Inr (fills X o' eb))"
    by blast
qed

lemma agree_seq':
  assumes "agree f es" and "\<And>es1. f es = Inr es1 \<Longrightarrow> agree g es1"
    and "good es \<Longrightarrow> h es = (case f es of Inl p \<Rightarrow> Inl p | Inr e1 \<Rightarrow> g e1)"
    and "\<And>eb. outWriter eb = None \<Longrightarrow> err eb = None \<Longrightarrow>
           h eb = (case f eb of Inl p \<Rightarrow> Inl p | Inr e1 \<Rightarrow> g e1)"
  shows "agree h es"
  by (rule agree_cong [OF agree_seq [OF assms(1,2)]]) (use assms(3,4) in auto)

lemma agree_skip:
  assumes "good es \<Longrightarrow> f es = Inr es"
    and "\<And>eb. outWriter eb = None \<Longrightarrow> err eb = None \<Longrightarrow> f eb = Inr eb"
  shows "agree f es"
  by (rule agreeI [where X = "[]" and o' = "offset es" and es' = es])
     (use assms in \<open>auto simp: streams_refl fills_def\<close>)

text \<open>What comes after a change of offset.\<close>

lemma agree_after_offset:
  assumes "agree g (es\<lparr>offset := x\<rparr>)"
    and "good es \<Longrightarrow> f es = g (es\<lparr>offset := x\<rparr>)"
    and "\<And>eb. outWriter eb = None \<Longrightarrow> err eb = None \<Longrightarrow> f eb = g (eb\<lparr>offset := x\<rparr>)"
  shows "agree f es"
  unfolding agree_def
proof (intro impI)
  assume good: "good es"
  then have "good (es\<lparr>offset := x\<rparr>)" by (rule good_set_offset)
  with assms(1) obtain X o1 es1 where 1: "g (es\<lparr>offset := x\<rparr>) = Inr es1"
    and s1: "streams (es\<lparr>offset := x\<rparr>) X o1 es1"
    and b1: "\<And>eb. outWriter eb = None \<Longrightarrow> err eb = None \<Longrightarrow> offset eb = x \<Longrightarrow>
               length X \<le> length (outBuffer eb) \<Longrightarrow> g eb = Inr (fills X o1 eb)"
    unfolding agree_def by auto
  have "f es = Inr es1" using assms(2) good 1 by simp
  moreover have "streams es X o1 es1" using s1 by (rule streams_from_offset)
  moreover have "\<forall>eb. outWriter eb = None \<and> err eb = None \<and> offset eb = offset es
                    \<and> length X \<le> length (outBuffer eb) \<longrightarrow> f eb = Inr (fills X o1 eb)"
  proof (intro allI impI)
    fix eb :: Encoder
    assume a: "outWriter eb = None \<and> err eb = None \<and> offset eb = offset es
                    \<and> length X \<le> length (outBuffer eb)"
    then have "g (eb\<lparr>offset := x\<rparr>) = Inr (fills X o1 (eb\<lparr>offset := x\<rparr>))"
      by (intro b1) simp_all
    then show "f eb = Inr (fills X o1 eb)" using a assms(3) by (simp add: fills_from_offset)
  qed
  ultimately show "\<exists>X o' es'. f es = Inr es' \<and> streams es X o' es' \<and>
       (\<forall>eb. outWriter eb = None \<and> err eb = None \<and> offset eb = offset es \<and>
             length X \<le> length (outBuffer eb) \<longrightarrow> f eb = Inr (fills X o' eb))"
    by blast
qed

text \<open>One write.\<close>

lemma agree_write:
  assumes "\<And>w. good es \<Longrightarrow> outWriter es = Some w \<Longrightarrow> f es = Inr (stream_write w p es)"
    and "\<And>eb. outWriter eb = None \<Longrightarrow> err eb = None \<Longrightarrow> length p \<le> length (outBuffer eb) \<Longrightarrow>
          f eb = Inr (fills p (offset eb) eb)"
  shows "agree f es"
  unfolding agree_def
proof (intro impI)
  assume good: "good es"
  then obtain w where w: "outWriter es = Some w" by (auto simp: good_def)
  have "f es = Inr (stream_write w p es)" using assms(1) good w by simp
  moreover have "streams es p (offset es) (stream_write w p es)" using good w by (rule good_write)
  ultimately show "\<exists>X o' es'. f es = Inr es' \<and> streams es X o' es' \<and>
       (\<forall>eb. outWriter eb = None \<and> err eb = None \<and> offset eb = offset es \<and>
             length X \<le> length (outBuffer eb) \<longrightarrow> f eb = Inr (fills X o' eb))"
    using assms(2) by metis
qed

lemma agree_EncodeUint64: "agree (EncodeUint64 n) es"
  by (rule agree_write [where p = "le_bytes 8 n"])
     (auto simp: EncodeUint64_def good_def buf_put_fills)

lemma agree_EncodeUint256: "agree (EncodeUint256 n) es"
  by (rule agree_write [where p = "case n of Some v \<Rightarrow> le_bytes 32 v | None \<Rightarrow> replicate 32 0"])
     (auto simp: EncodeUint256_def good_def buf_copy_fills split: option.splits)

lemma agree_EncodeStaticBytes: "agree (EncodeStaticBytes blob) es"
  by (rule agree_write [where p = blob])
     (auto simp: EncodeStaticBytes_def good_def buf_copy_fills)

lemma agree_EncodeDynamicBytesContent: "agree (EncodeDynamicBytesContent blob) es"
  by (rule agree_write [where p = blob])
     (auto simp: EncodeDynamicBytesContent_def good_def buf_copy_fills)


lemma agree_not_good: "\<not> good es \<Longrightarrow> agree f es"
  by (simp add: agree_def)

lemma stream_write_fields [simp]:
  "offset (stream_write w p es) = offset es"
  "outWriter (stream_write w p es) \<noteq> None"
  "outBuffer (stream_write w p es) = outBuffer es"
  "outDone (stream_write w p es) = outDone es"
  by (simp_all add: stream_write_def split: prod.splits)

lemma buf_put_fields:
  "buf_put bs eb = Inr e1 \<Longrightarrow> outWriter e1 = outWriter eb \<and> err e1 = err eb \<and> offset e1 = offset eb"
  by (auto simp: buf_put_def split: if_splits)

lemma buf_copy_fields:
  "buf_copy bs eb = Inr e1 \<Longrightarrow> outWriter e1 = outWriter eb \<and> err e1 = err eb \<and> offset e1 = offset eb"
  by (auto simp: buf_copy_def split: if_splits)

lemma agree_offset_slot:
  assumes adv: "\<And>e. advance e = e\<lparr>offset := a (offset e)\<rparr>"
  shows "agree (offset_slot advance) es"
proof (cases "good es")
  case False then show ?thesis by (rule agree_not_good)
next
  case True
  then obtain w where w: "outWriter es = Some w" and e: "err es = None" by (auto simp: good_def)
  let ?p = "le_bytes 4 (offset es)"
  let ?e1 = "stream_write w ?p es"
  have s1: "streams es ?p (offset es) ?e1" using True w by (rule good_write)
  have a1: "advance ?e1 = ?e1\<lparr>offset := a (offset es)\<rparr>" using adv [of ?e1] by simp
  show ?thesis
  proof (rule agreeI [where X = ?p and o' = "a (offset es)" and es' = "advance ?e1"])
    show "offset_slot advance es = Inr (advance ?e1)" using w e by (simp add: offset_slot_def)
    show "streams es ?p (a (offset es)) (advance ?e1)"
      unfolding a1 using s1 by (rule streams_set_offset)
  next
    fix eb :: Encoder
    assume b: "outWriter eb = None" "err eb = None" "offset eb = offset es"
      "length ?p \<le> length (outBuffer eb)"
    have "buf_put (le_bytes 4 (offset eb)) eb = Inr (fills ?p (offset eb) eb)"
      using b by (simp add: buf_put_fills)
    then show "offset_slot advance eb = Inr (fills ?p (a (offset es)) eb)"
      using b adv [of "fills ?p (offset eb) eb"]
      by (simp add: offset_slot_def fills_set_offset)
  qed
qed

lemma dynamic_bytes_sizes_eq:
  "dynamic_bytes_sizes blobs e
   = e\<lparr>offset := foldl (\<lambda>x blob. x + of_nat (4 + length blob)) (offset e) blobs\<rparr>"
  by (induction blobs arbitrary: e) simp_all

lemma dynamic_objects_sizes_eq:
  "dynamic_objects_sizes objs e
   = e\<lparr>offset := foldl (\<lambda>x obj. x + (4 + SizeSSZ obj)) (offset e) objs\<rparr>"
  by (induction objs arbitrary: e) simp_all

lemma agree_EncodeDynamicBytesOffset: "agree (EncodeDynamicBytesOffset blob) es"
  unfolding EncodeDynamicBytesOffset_def
  by (rule agree_offset_slot [where a = "\<lambda>x. x + of_nat (length blob)"]) simp

lemma agree_EncodeDynamicObjectOffset: "agree (EncodeDynamicObjectOffset obj) es"
  unfolding EncodeDynamicObjectOffset_def
  by (rule agree_offset_slot [where a = "\<lambda>x. x + SizeSSZ obj"]) simp

lemma agree_EncodeSliceOfUint64sOffset: "agree (EncodeSliceOfUint64sOffset ns) es"
  unfolding EncodeSliceOfUint64sOffset_def
  by (rule agree_offset_slot
        [where a = "\<lambda>x. if length ns > 0 then x + of_nat (length ns * 8) else x"]) simp

lemma agree_EncodeSliceOfStaticBytesOffset: "agree (EncodeSliceOfStaticBytesOffset blobs) es"
  unfolding EncodeSliceOfStaticBytesOffset_def
  by (rule agree_offset_slot
        [where a = "\<lambda>x. if length blobs > 0
                          then x + of_nat (length blobs * length (hd blobs)) else x"]) simp

lemma agree_EncodeSliceOfStaticObjectsOffset: "agree (EncodeSliceOfStaticObjectsOffset objs) es"
  unfolding EncodeSliceOfStaticObjectsOffset_def
  by (rule agree_offset_slot
        [where a = "\<lambda>x. if length objs > 0
                          then x + of_nat (length objs) * SizeSSZ (hd objs) else x"]) simp

lemma agree_EncodeSliceOfDynamicBytesOffset: "agree (EncodeSliceOfDynamicBytesOffset blobs) es"
  unfolding EncodeSliceOfDynamicBytesOffset_def
  by (rule agree_offset_slot) (rule dynamic_bytes_sizes_eq)

lemma agree_EncodeSliceOfDynamicObjectsOffset: "agree (EncodeSliceOfDynamicObjectsOffset objs) es"
  unfolding EncodeSliceOfDynamicObjectsOffset_def
  by (rule agree_offset_slot) (rule dynamic_objects_sizes_eq)

lemma agree_EncodeSliceOfUint64sContent: "agree (EncodeSliceOfUint64sContent ns) es"
proof (induction ns arbitrary: es)
  case Nil
  show ?case by (rule agree_skip) (auto simp: EncodeSliceOfUint64sContent_def good_def)
next
  case (Cons n ns)
  show ?case
  proof (rule agree_seq' [where f = "EncodeUint64 n" and g = "EncodeSliceOfUint64sContent ns"])
    show "agree (EncodeUint64 n) es" by (rule agree_EncodeUint64)
    show "\<And>es1. agree (EncodeSliceOfUint64sContent ns) es1" by (rule Cons.IH)
    show "good es \<Longrightarrow> EncodeSliceOfUint64sContent (n # ns) es =
      (case EncodeUint64 n es of Inl p \<Rightarrow> Inl p | Inr e1 \<Rightarrow> EncodeSliceOfUint64sContent ns e1)"
      by (auto simp: good_def EncodeSliceOfUint64sContent_def EncodeUint64_def split: option.splits)
    show "\<And>eb. outWriter eb = None \<Longrightarrow> err eb = None \<Longrightarrow> EncodeSliceOfUint64sContent (n # ns) eb =
      (case EncodeUint64 n eb of Inl p \<Rightarrow> Inl p | Inr e1 \<Rightarrow> EncodeSliceOfUint64sContent ns e1)"
      by (auto simp: EncodeSliceOfUint64sContent_def EncodeUint64_def
               dest: buf_put_fields split: sum.splits)
  qed
qed

lemma agree_EncodeArrayOfStaticBytes: "agree (EncodeArrayOfStaticBytes blobs) es"
proof (induction blobs arbitrary: es)
  case Nil
  show ?case by (rule agree_skip) (auto simp: EncodeArrayOfStaticBytes_def good_def)
next
  case (Cons n ns)
  show ?case
  proof (rule agree_seq' [where f = "EncodeStaticBytes n" and g = "EncodeArrayOfStaticBytes ns"])
    show "agree (EncodeStaticBytes n) es" by (rule agree_EncodeStaticBytes)
    show "\<And>es1. agree (EncodeArrayOfStaticBytes ns) es1" by (rule Cons.IH)
    show "good es \<Longrightarrow> EncodeArrayOfStaticBytes (n # ns) es =
      (case EncodeStaticBytes n es of Inl p \<Rightarrow> Inl p | Inr e1 \<Rightarrow> EncodeArrayOfStaticBytes ns e1)"
      by (auto simp: good_def EncodeArrayOfStaticBytes_def EncodeStaticBytes_def split: option.splits)
    show "\<And>eb. outWriter eb = None \<Longrightarrow> err eb = None \<Longrightarrow> EncodeArrayOfStaticBytes (n # ns) eb =
      (case EncodeStaticBytes n eb of Inl p \<Rightarrow> Inl p | Inr e1 \<Rightarrow> EncodeArrayOfStaticBytes ns e1)"
      by (auto simp: EncodeArrayOfStaticBytes_def EncodeStaticBytes_def
               dest: buf_copy_fields split: sum.splits)
  qed
qed

lemma agree_EncodeSliceOfStaticBytesContent: "agree (EncodeSliceOfStaticBytesContent blobs) es"
proof -
  have "EncodeSliceOfStaticBytesContent blobs = EncodeArrayOfStaticBytes blobs"
    by (rule ext) (simp add: EncodeSliceOfStaticBytesContent_def EncodeArrayOfStaticBytes_def)
  then show ?thesis by (simp add: agree_EncodeArrayOfStaticBytes)
qed

text \<open>The loops of item offsets, both modes in one function.\<close>

lemma item_offsets_not_returned:
  "good es \<Longrightarrow> snd (item_offsets_stream blobs es) = False"
proof (induction blobs arbitrary: es)
  case Nil then show ?case by simp
next
  case (Cons b bs)
  then obtain w where w: "outWriter es = Some w" and e: "err es = None" by (auto simp: good_def)
  have "good (stream_write w (le_bytes 4 (offset es)) es)"
    using Cons.prems w good_write streams_good by blast
  then have "good ((stream_write w (le_bytes 4 (offset es)) es)\<lparr>offset := offset es + of_nat (length b)\<rparr>)"
    by (rule good_set_offset)
  then show ?case using Cons.IH w e by simp
qed

lemma object_offsets_not_returned:
  "good es \<Longrightarrow> snd (object_offsets_stream objs es) = False"
proof (induction objs arbitrary: es)
  case Nil then show ?case by simp
next
  case (Cons b bs)
  then obtain w where w: "outWriter es = Some w" and e: "err es = None" by (auto simp: good_def)
  have "good (stream_write w (le_bytes 4 (offset es)) es)"
    using Cons.prems w good_write streams_good by blast
  then have "good ((stream_write w (le_bytes 4 (offset es)) es)\<lparr>offset := offset es + SizeSSZ b\<rparr>)"
    by (rule good_set_offset)
  then show ?case using Cons.IH w e by simp
qed

lemma agree_item_offsets:
  "agree (\<lambda>e. case outWriter e of Some w \<Rightarrow> Inr (fst (item_offsets_stream blobs e))
                                  | None \<Rightarrow> item_offsets_buffer blobs e) es"
proof (induction blobs arbitrary: es)
  case Nil
  show ?case by (rule agree_skip) (auto simp: good_def)
next
  case (Cons b bs)
  show ?case
  proof (rule agree_seq' [where f = "EncodeDynamicBytesOffset b"
        and g = "\<lambda>e. case outWriter e of Some w \<Rightarrow> Inr (fst (item_offsets_stream bs e))
                                  | None \<Rightarrow> item_offsets_buffer bs e"])
    show "agree (EncodeDynamicBytesOffset b) es" by (rule agree_EncodeDynamicBytesOffset)
    show "\<And>es1. agree (\<lambda>e. case outWriter e of Some w \<Rightarrow> Inr (fst (item_offsets_stream bs e))
                                  | None \<Rightarrow> item_offsets_buffer bs e) es1" by (rule Cons.IH)
    show "good es \<Longrightarrow>
      (case outWriter es of None \<Rightarrow> item_offsets_buffer (b # bs) es
       | Some w \<Rightarrow> Inr (fst (item_offsets_stream (b # bs) es))) =
      (case EncodeDynamicBytesOffset b es of Inl p \<Rightarrow> Inl p
       | Inr e1 \<Rightarrow> (case outWriter e1 of None \<Rightarrow> item_offsets_buffer bs e1
                     | Some w \<Rightarrow> Inr (fst (item_offsets_stream bs e1))))"
      by (auto simp: good_def EncodeDynamicBytesOffset_def offset_slot_def split: option.splits)
    show "\<And>eb. outWriter eb = None \<Longrightarrow> err eb = None \<Longrightarrow>
      (case outWriter eb of None \<Rightarrow> item_offsets_buffer (b # bs) eb
       | Some w \<Rightarrow> Inr (fst (item_offsets_stream (b # bs) eb))) =
      (case EncodeDynamicBytesOffset b eb of Inl p \<Rightarrow> Inl p
       | Inr e1 \<Rightarrow> (case outWriter e1 of None \<Rightarrow> item_offsets_buffer bs e1
                     | Some w \<Rightarrow> Inr (fst (item_offsets_stream bs e1))))"
      by (auto simp: EncodeDynamicBytesOffset_def offset_slot_def
               dest: buf_put_fields split: sum.splits)
  qed
qed

lemma agree_object_offsets:
  "agree (\<lambda>e. case object_offsets objs e of Inl p \<Rightarrow> Inl p | Inr (e', r) \<Rightarrow> Inr e') es"
proof (induction objs arbitrary: es)
  case Nil
  show ?case by (rule agree_skip) (auto simp: good_def object_offsets_def)
next
  case (Cons b bs)
  show ?case
  proof (rule agree_seq' [where f = "EncodeDynamicObjectOffset b"
        and g = "\<lambda>e. case object_offsets bs e of Inl p \<Rightarrow> Inl p | Inr (e', r) \<Rightarrow> Inr e'"])
    show "agree (EncodeDynamicObjectOffset b) es" by (rule agree_EncodeDynamicObjectOffset)
    show "\<And>es1. agree (\<lambda>e. case object_offsets bs e of Inl p \<Rightarrow> Inl p | Inr (e', r) \<Rightarrow> Inr e') es1"
      by (rule Cons.IH)
    show "good es \<Longrightarrow>
      (case object_offsets (b # bs) es of Inl p \<Rightarrow> Inl p | Inr (e', r) \<Rightarrow> Inr e') =
      (case EncodeDynamicObjectOffset b es of Inl p \<Rightarrow> Inl p
       | Inr e1 \<Rightarrow> (case object_offsets bs e1 of Inl p \<Rightarrow> Inl p | Inr (e', r) \<Rightarrow> Inr e'))"
      by (auto simp: good_def object_offsets_def EncodeDynamicObjectOffset_def offset_slot_def
               split: option.splits prod.splits)
    show "\<And>eb. outWriter eb = None \<Longrightarrow> err eb = None \<Longrightarrow>
      (case object_offsets (b # bs) eb of Inl p \<Rightarrow> Inl p | Inr (e', r) \<Rightarrow> Inr e') =
      (case EncodeDynamicObjectOffset b eb of Inl p \<Rightarrow> Inl p
       | Inr e1 \<Rightarrow> (case object_offsets bs e1 of Inl p \<Rightarrow> Inl p | Inr (e', r) \<Rightarrow> Inr e'))"
      by (auto simp: object_offsets_def EncodeDynamicObjectOffset_def offset_slot_def
               dest: buf_put_fields split: sum.splits)
  qed
qed

lemma item_offsets_stream_outWriter:
  "outWriter es \<noteq> None \<Longrightarrow> outWriter (fst (item_offsets_stream blobs es)) \<noteq> None"
  using reach_outWriter [OF reach_item_offsets_stream [of es blobs]] by simp

lemma item_offsets_buffer_outWriter:
  "item_offsets_buffer blobs eb = Inr e1 \<Longrightarrow> outWriter eb = None \<Longrightarrow> outWriter e1 = None"
  using reach_outWriter [OF reach_item_offsets_buffer] by simp

lemma agree_EncodeSliceOfDynamicBytesContent: "agree (EncodeSliceOfDynamicBytesContent blobs) es"
proof (rule agree_after_offset [where x = "of_nat (4 * length blobs)"
      and g = "\<lambda>e. case (case outWriter e of Some w \<Rightarrow> Inr (fst (item_offsets_stream blobs e))
                                  | None \<Rightarrow> item_offsets_buffer blobs e) of
                      Inl p \<Rightarrow> Inl p | Inr e1 \<Rightarrow> EncodeArrayOfStaticBytes blobs e1"])
  show "agree (\<lambda>e. case (case outWriter e of Some w \<Rightarrow> Inr (fst (item_offsets_stream blobs e))
                                  | None \<Rightarrow> item_offsets_buffer blobs e) of
                      Inl p \<Rightarrow> Inl p | Inr e1 \<Rightarrow> EncodeArrayOfStaticBytes blobs e1)
          (es\<lparr>offset := of_nat (4 * length blobs)\<rparr>)"
    by (rule agree_seq) (rule agree_item_offsets, rule agree_EncodeArrayOfStaticBytes)
next
  assume g: "good es"
  let ?e0 = "es\<lparr>offset := of_nat (4 * length blobs)\<rparr>"
  have g0: "good ?e0" using g by (rule good_set_offset)
  then obtain w where w: "outWriter ?e0 = Some w" by (auto simp: good_def)
  have nr: "snd (item_offsets_stream blobs ?e0) = False" using g0 by (rule item_offsets_not_returned)
  have ow: "outWriter (fst (item_offsets_stream blobs ?e0)) \<noteq> None"
    using w by (intro item_offsets_stream_outWriter) simp
  show "EncodeSliceOfDynamicBytesContent blobs es =
    (case (case outWriter ?e0 of Some w \<Rightarrow> Inr (fst (item_offsets_stream blobs ?e0))
                                  | None \<Rightarrow> item_offsets_buffer blobs ?e0) of
                      Inl p \<Rightarrow> Inl p | Inr e1 \<Rightarrow> EncodeArrayOfStaticBytes blobs e1)"
    using w nr ow
    by (auto simp: EncodeSliceOfDynamicBytesContent_def offsetDynamics_def
          EncodeArrayOfStaticBytes_def split: prod.splits option.splits)
next
  fix eb :: Encoder
  assume b: "outWriter eb = None" "err eb = None"
  let ?e0 = "eb\<lparr>offset := of_nat (4 * length blobs)\<rparr>"
  show "EncodeSliceOfDynamicBytesContent blobs eb =
    (case (case outWriter ?e0 of Some w \<Rightarrow> Inr (fst (item_offsets_stream blobs ?e0))
                                  | None \<Rightarrow> item_offsets_buffer blobs ?e0) of
                      Inl p \<Rightarrow> Inl p | Inr e1 \<Rightarrow> EncodeArrayOfStaticBytes blobs e1)"
    using b
    by (auto simp: EncodeSliceOfDynamicBytesContent_def offsetDynamics_def
          EncodeArrayOfStaticBytes_def
          dest: item_offsets_buffer_outWriter split: sum.splits)
qed

lemma agree_all:
  "agree (Define d) es1"
  "agree (walk ds) es2"
  "agree (EncodeStaticObject o3) es3"
  "agree (EncodeDynamicObjectContent o4) es4"
  "agree (EncodeSliceOfStaticObjectsContent os5) es5"
  "agree (EncodeSliceOfDynamicObjectsContent os6) es6"
  "agree (dynamic_objects_content os7) es7"
proof (induction d es1 and ds es2 and o3 es3 and o4 es4 and os5 es5 and os6 es6 and os7 es7
    rule: Define_walk_EncodeStaticObject_EncodeDynamicObjectContent_EncodeSliceOfStaticObjectsContent_EncodeSliceOfDynamicObjectsContent_dynamic_objects_content.induct)
  case (20 enc)
  show ?case by (rule agree_skip) simp_all
next
  case (21 d ds enc)
  show ?case by (rule agree_seq' [OF "21.IH"(1) "21.IH"(2)]) simp_all
next
  case (22 sf st ds enc)
  show ?case
  proof (cases "good enc")
    case True
    then have e: "err enc = None" by (simp add: good_def)
    show ?thesis by (rule agree_cong [OF "22.IH"]) (simp_all add: e)
  next
    case False then show ?thesis by (rule agree_not_good)
  qed
next
  case (23 sf st ds enc)
  show ?case
  proof (cases "good enc")
    case True
    then have e: "err enc = None" by (simp add: good_def)
    have "agree (walk ds) (enc\<lparr>offset := sf\<rparr>)" using "23.IH" e by (simp add: offsetDynamics_def)
    then show ?thesis by (rule agree_after_offset) (simp_all add: e offsetDynamics_def)
  next
    case False then show ?thesis by (rule agree_not_good)
  qed
next
  case (24 enc)
  show ?case by (rule agree_skip) simp_all
next
  case (25 sf st ds objects enc)
  show ?case
  proof (cases "good enc")
    case True
    then have e: "err enc = None" by (simp add: good_def)
    show ?thesis
      by (rule agree_seq' [where f = "walk ds" and g = "EncodeSliceOfStaticObjectsContent objects"])
         (use e "25.IH" in simp_all)
  next
    case False then show ?thesis by (rule agree_not_good)
  qed
next
  case (26 objects enc)
  let ?x = "of_nat (4 * length objects) :: 32 word"
  let ?h = "\<lambda>e. case object_offsets objects e of Inl p \<Rightarrow> Inl p | Inr (e', r) \<Rightarrow> Inr e'"
  let ?g = "\<lambda>e. case ?h e of Inl p \<Rightarrow> Inl p | Inr e1 \<Rightarrow> dynamic_objects_content objects e1"
  show ?case
  proof (cases "good enc")
    case True
    let ?e0 = "enc\<lparr>offset := ?x\<rparr>"
    have g0: "good ?e0" using True by (rule good_set_offset)
    then obtain w where w: "outWriter ?e0 = Some w" by (auto simp: good_def)
    have nr: "snd (object_offsets_stream objects ?e0) = False"
      using g0 by (rule object_offsets_not_returned)
    have oo: "object_offsets objects ?e0
              = Inr (fst (object_offsets_stream objects ?e0), False)"
      using w nr by (simp add: object_offsets_def prod_eq_iff)
    have "agree ?g ?e0"
    proof (rule agree_seq [OF agree_object_offsets])
      fix es1 assume "?h ?e0 = Inr es1"
      then have "es1 = fst (object_offsets_stream objects ?e0)" using oo by simp
      then show "agree (dynamic_objects_content objects) es1"
        using "26.IH" [OF oo [unfolded offsetDynamics_def [symmetric]] refl]
        by (simp add: offsetDynamics_def)
    qed
    then show ?thesis
    proof (rule agree_after_offset)
      show "EncodeSliceOfDynamicObjectsContent objects enc = ?g ?e0"
        using oo by (simp add: offsetDynamics_def)
    next
      fix eb :: Encoder
      assume "outWriter eb = None" "err eb = None"
      then show "EncodeSliceOfDynamicObjectsContent objects eb = ?g (eb\<lparr>offset := ?x\<rparr>)"
        by (auto simp: offsetDynamics_def object_offsets_def split: sum.splits)
    qed
  next
    case False then show ?thesis by (rule agree_not_good)
  qed
next
  case (27 enc)
  show ?case by (rule agree_skip) simp_all
next
  case (28 sf st ds objects enc)
  show ?case
  proof (cases "good enc")
    case True
    then have e: "err enc = None" by (simp add: good_def)
    have "agree (\<lambda>e. case walk ds e of Inl p \<Rightarrow> Inl p | Inr e1 \<Rightarrow> dynamic_objects_content objects e1)
            (enc\<lparr>offset := sf\<rparr>)"
      by (rule agree_seq) (use e "28.IH" in \<open>simp_all add: offsetDynamics_def\<close>)
    then show ?thesis by (rule agree_after_offset) (simp_all add: e offsetDynamics_def)
  next
    case False then show ?thesis by (rule agree_not_good)
  qed
qed (simp_all add: agree_EncodeUint64 agree_EncodeUint256 agree_EncodeStaticBytes
       agree_EncodeDynamicBytesContent agree_EncodeDynamicBytesOffset
       agree_EncodeDynamicObjectOffset agree_EncodeSliceOfUint64sOffset
       agree_EncodeSliceOfStaticBytesOffset agree_EncodeSliceOfStaticObjectsOffset
       agree_EncodeSliceOfDynamicBytesOffset agree_EncodeSliceOfDynamicObjectsOffset
       agree_EncodeSliceOfUint64sContent agree_EncodeArrayOfStaticBytes
       agree_EncodeSliceOfStaticBytesContent agree_EncodeSliceOfDynamicBytesContent)

text \<open>
  Claim C6. On a streaming encoder with no latched error over a sink that never
  fails, every encode operation (every schema call \<open>d\<close>; a whole value is the call
  \<open>DefineStaticObject\<close> or \<open>DefineDynamicObjectContent\<close> on it) returns having sent
  some bytes \<open>X\<close> to the sink, and on every buffered encoder with the same \<open>offset\<close>,
  no error and a buffer of exactly \<open>length X\<close> bytes the same operation returns
  having put the same bytes \<open>X\<close> into the buffer, filling it, with the same \<open>offset\<close>
  afterwards.
\<close>

theorem streaming_and_buffered_agree:
  assumes "outWriter es = Some w" and "never_fails w" and "err es = None"
  shows "\<exists>X es'. Define d es = Inr es' \<and> err es' = None \<and> written es' = written es @ X
          \<and> (\<forall>eb. outWriter eb = None \<longrightarrow> err eb = None \<longrightarrow> offset eb = offset es
                 \<longrightarrow> length (outBuffer eb) = length X
                 \<longrightarrow> (\<exists>eb'. Define d eb = Inr eb' \<and> written eb' = written eb @ X
                         \<and> outBuffer eb' = [] \<and> err eb' = None \<and> offset eb' = offset es'))"
proof -
  have g: "good es" using assms by (auto simp: good_def)
  with agree_all(1) [of d es] obtain X o' es' where 1: "Define d es = Inr es'"
    and s: "streams es X o' es'"
    and b: "\<And>eb. outWriter eb = None \<Longrightarrow> err eb = None \<Longrightarrow> offset eb = offset es \<Longrightarrow>
              length X \<le> length (outBuffer eb) \<Longrightarrow> Define d eb = Inr (fills X o' eb)"
    unfolding agree_def by blast
  have "err es' = None" using s assms(3) by (auto simp: streams_def)
  moreover have "written es' = written es @ X"
    using s by (auto simp: streams_def written_def)
  moreover have o: "offset es' = o'" using s by (rule streams_offset)
  moreover have "\<forall>eb. outWriter eb = None \<longrightarrow> err eb = None \<longrightarrow> offset eb = offset es
                 \<longrightarrow> length (outBuffer eb) = length X
                 \<longrightarrow> (\<exists>eb'. Define d eb = Inr eb' \<and> written eb' = written eb @ X
                         \<and> outBuffer eb' = [] \<and> err eb' = None \<and> offset eb' = offset es')"
  proof (intro allI impI)
    fix eb :: Encoder
    assume a: "outWriter eb = None" "err eb = None" "offset eb = offset es"
      "length (outBuffer eb) = length X"
    then have "Define d eb = Inr (fills X o' eb)" by (intro b) simp_all
    moreover have "written (fills X o' eb) = written eb @ X"
      using a by (simp add: written_def fills_def)
    moreover have "outBuffer (fills X o' eb) = []" using a by (simp add: fills_def)
    ultimately show "\<exists>eb'. Define d eb = Inr eb' \<and> written eb' = written eb @ X
                         \<and> outBuffer eb' = [] \<and> err eb' = None \<and> offset eb' = offset es'"
      using a o by simp
  qed
  ultimately show ?thesis using 1 by blast
qed

theorem streaming_and_buffered_agree_witness:
  "outWriter (stream_encoder quiet_sink) = Some quiet_sink
   \<and> never_fails quiet_sink
   \<and> err (stream_encoder quiet_sink) = None
   \<and> (\<exists>eb'. Define (DefineDynamicObjectContent (ExecutionPayload_object s6_value))
                (buffer_encoder (replicate 521 0)) = Inr eb'
        \<and> written eb' = s6_bytes \<and> outBuffer eb' = [])"
proof -
  let ?d = "DefineDynamicObjectContent (ExecutionPayload_object s6_value)"
  let ?es = "stream_encoder quiet_sink"
  let ?eb = "buffer_encoder (replicate 521 0)"
  have h1: "outWriter ?es = Some quiet_sink" by code_simp
  have h2: "never_fails quiet_sink" by code_simp
  have h3: "err ?es = None" by code_simp
  have ev: "map_sum id written (Define ?d ?es) = Inr s6_bytes" by code_simp
  have w0: "written ?es = []" by code_simp
  have len: "length (outBuffer ?eb) = length s6_bytes" by code_simp
  have b: "outWriter ?eb = None" "err ?eb = None" "offset ?eb = offset ?es" "written ?eb = []"
    by code_simp+
  from streaming_and_buffered_agree [OF h1 h2 h3, of ?d]
  obtain X es' where 1: "Define ?d ?es = Inr es'" and 2: "written es' = written ?es @ X"
    and 3: "\<forall>eb. outWriter eb = None \<longrightarrow> err eb = None \<longrightarrow> offset eb = offset ?es
                 \<longrightarrow> length (outBuffer eb) = length X
                 \<longrightarrow> (\<exists>eb'. Define ?d eb = Inr eb' \<and> written eb' = written eb @ X
                         \<and> outBuffer eb' = [] \<and> err eb' = None \<and> offset eb' = offset es')"
    by blast
  have X: "X = s6_bytes" using ev 1 2 w0 by simp
  from 3 [rule_format, OF b(1) b(2) b(3)] len X b(4)
  have "\<exists>eb'. Define ?d ?eb = Inr eb' \<and> written eb' = s6_bytes \<and> outBuffer eb' = []"
    by auto
  with h1 h2 h3 show ?thesis by blast
qed

subsection \<open>Buffered mode and the error field\<close>

lemma ignores_err_buf_put:
  assumes "\<And>e. outWriter e = None \<Longrightarrow> f e = buf_put bs e" and "outWriter enc = None"
  shows "ignores_err f enc bs"
  unfolding ignores_err_def using assms by (auto simp: buf_put_def)

lemma ignores_err_buf_copy:
  assumes "\<And>e. outWriter e = None \<Longrightarrow> f e = buf_copy bs e" and "outWriter enc = None"
  shows "ignores_err f enc bs"
  unfolding ignores_err_def using assms by (auto simp: buf_copy_def)

lemma ignores_err_offset_slot:
  assumes adv: "\<And>e. advance e = e\<lparr>offset := a (offset e)\<rparr>" and "outWriter enc = None"
  shows "ignores_err (offset_slot advance) enc (le_bytes 4 (offset enc))"
  unfolding ignores_err_def using assms(2)
  by (auto simp: offset_slot_def buf_put_def adv)

lemma blobs_buffer_eq:
  "blobs_buffer blobs enc =
     (if length (concat blobs) \<le> length (outBuffer enc)
      then Inr (enc\<lparr>outBuffer := drop (length (concat blobs)) (outBuffer enc),
                     outDone := outDone enc @ concat blobs\<rparr>)
      else Inl SliceBounds)"
proof (induction blobs arbitrary: enc)
  case Nil then show ?case by simp
next
  case (Cons b bs)
  show ?case
  proof (cases "length b \<le> length (outBuffer enc)")
    case True
    then show ?thesis by (auto simp: buf_copy_def Cons.IH add.commute)
  next
    case False
    then show ?thesis by (simp add: buf_copy_def)
  qed
qed

lemma ignores_err_EncodeArrayOfStaticBytes:
  assumes "outWriter enc = None"
  shows "ignores_err (EncodeArrayOfStaticBytes blobs) enc (concat blobs)"
  unfolding ignores_err_def using assms
  by (auto simp: EncodeArrayOfStaticBytes_def blobs_buffer_eq)

lemma step_buffered_err:
  "enc_step a b \<Longrightarrow> outWriter a = None \<Longrightarrow> err b = err a \<and> outWriter b = None"
  by (induction rule: enc_step.induct) auto

lemma buffered_keeps_err:
  assumes "outWriter enc = None" and "Define d enc = Inr enc'"
  shows "err enc' = err enc \<and> outWriter enc' = None"
proof -
  have "reach enc enc'" using runs_all(1) [of d enc] assms(2) by (simp add: runs_def)
  then show ?thesis
    by (rule reach_invariant [where P = "\<lambda>a. err a = err enc \<and> outWriter a = None"])
       (use assms(1) step_buffered_err in auto)
qed

lemma err_skips_objects:
  assumes "err enc \<noteq> None"
  shows "EncodeStaticObject ob enc = Inr enc"
    and "EncodeDynamicObjectContent ob enc = Inr enc"
    and "EncodeSliceOfStaticObjectsContent (ob # obs) enc = Inr enc"
    and "dynamic_objects_content (ob # obs) enc = Inr enc"
  using assms by (cases ob, simp)+

text \<open>
  Claim C9 as stated is false in its conclusion. A buffered encoder over a 16-byte
  buffer whose error field is set skips a whole \<open>VoluntaryExit\<close>:
  \<open>EncodeStaticObject\<close> tests \<open>enc.err\<close> without testing the mode, returns the
  encoder as it was and puts nothing into the buffer, where the same call with no
  error set fills it. On a slice of one dynamic object the content operation puts
  the item offset into the buffer and skips the item.
\<close>

theorem buffered_object_skipped_example:
  "EncodeStaticObject (VoluntaryExit_object \<lparr>Epoch = 7, ValidatorIndex = 9\<rparr>)
     ((buffer_encoder (replicate 16 0))\<lparr>err := Some (WriteError 1)\<rparr>)
   = Inr ((buffer_encoder (replicate 16 0))\<lparr>err := Some (WriteError 1)\<rparr>)
   \<and> written ((buffer_encoder (replicate 16 0))\<lparr>err := Some (WriteError 1)\<rparr>) = []
   \<and> map_sum id written
       (EncodeStaticObject (VoluntaryExit_object \<lparr>Epoch = 7, ValidatorIndex = 9\<rparr>)
          (buffer_encoder (replicate 16 0)))
     = Inr [7, 0, 0, 0, 0, 0, 0, 0, 9, 0, 0, 0, 0, 0, 0, 0]
   \<and> map_sum id written
       (EncodeSliceOfDynamicObjectsContent
          [Object 4 6 [DefineDynamicBytesOffset [1, 2], DefineDynamicBytesContent [1, 2]]]
          ((buffer_encoder (replicate 10 0))\<lparr>err := Some (WriteError 1)\<rparr>))
     = Inr [4, 0, 0, 0]
   \<and> map_sum id written
       (EncodeSliceOfDynamicObjectsContent
          [Object 4 6 [DefineDynamicBytesOffset [1, 2], DefineDynamicBytesContent [1, 2]]]
          (buffer_encoder (replicate 10 0)))
     = Inr [4, 0, 0, 0, 4, 0, 0, 0, 1, 2]"
  by code_simp

text \<open>
  Claim C9, amended. In buffered mode (\<open>outWriter\<close> is nil) each primitive operation
  (\<open>EncodeUint64\<close>, \<open>EncodeUint256\<close>, \<open>EncodeStaticBytes\<close>,
  \<open>EncodeArrayOfStaticBytes\<close>) and each of the seven offset-phase operations gives a
  result that does not depend on the error field and leaves the field as it was,
  returns whenever the buffer has room for its bytes, and has put its bytes into
  the buffer when it returns, whatever the error field holds. No encode
  operation at all changes the error field in buffered mode, so an error is never
  latched there. The operations that walk the schema of an object do test the
  error field, in buffered mode as in streaming mode: with the field set,
  \<open>EncodeStaticObject\<close>, \<open>EncodeDynamicObjectContent\<close>, and the loops over the items
  of \<open>EncodeSliceOfStaticObjectsContent\<close> and \<open>EncodeSliceOfDynamicObjectsContent\<close>
  return the encoder as it is.
\<close>

theorem buffered_mode_ignores_err:
  assumes "outWriter enc = None"
  shows "ignores_err (EncodeUint64 n) enc (le_bytes 8 n)
       \<and> ignores_err (EncodeUint256 m) enc
           (case m of Some v \<Rightarrow> le_bytes 32 v | None \<Rightarrow> replicate 32 0)
       \<and> ignores_err (EncodeStaticBytes blob) enc blob
       \<and> ignores_err (EncodeArrayOfStaticBytes blobs) enc (concat blobs)
       \<and> ignores_err (EncodeDynamicBytesOffset blob) enc (le_bytes 4 (offset enc))
       \<and> ignores_err (EncodeDynamicObjectOffset obj) enc (le_bytes 4 (offset enc))
       \<and> ignores_err (EncodeSliceOfUint64sOffset ns) enc (le_bytes 4 (offset enc))
       \<and> ignores_err (EncodeSliceOfStaticBytesOffset blobs) enc (le_bytes 4 (offset enc))
       \<and> ignores_err (EncodeSliceOfDynamicBytesOffset blobs) enc (le_bytes 4 (offset enc))
       \<and> ignores_err (EncodeSliceOfStaticObjectsOffset objs) enc (le_bytes 4 (offset enc))
       \<and> ignores_err (EncodeSliceOfDynamicObjectsOffset objs) enc (le_bytes 4 (offset enc))
       \<and> (\<forall>d enc'. Define d enc = Inr enc' \<longrightarrow> err enc' = err enc \<and> outWriter enc' = None)
       \<and> (err enc \<noteq> None \<longrightarrow>
            EncodeStaticObject ob enc = Inr enc
            \<and> EncodeDynamicObjectContent ob enc = Inr enc
            \<and> EncodeSliceOfStaticObjectsContent (ob # obs) enc = Inr enc
            \<and> dynamic_objects_content (ob # obs) enc = Inr enc)"
proof (intro conjI)
  show "ignores_err (EncodeUint64 n) enc (le_bytes 8 n)"
    by (rule ignores_err_buf_put [OF _ assms]) (simp add: EncodeUint64_def)
  show "ignores_err (EncodeUint256 m) enc
           (case m of Some v \<Rightarrow> le_bytes 32 v | None \<Rightarrow> replicate 32 0)"
    by (rule ignores_err_buf_copy [OF _ assms]) (simp add: EncodeUint256_def split: option.splits)
  show "ignores_err (EncodeStaticBytes blob) enc blob"
    by (rule ignores_err_buf_copy [OF _ assms]) (simp add: EncodeStaticBytes_def)
  show "ignores_err (EncodeArrayOfStaticBytes blobs) enc (concat blobs)"
    using assms by (rule ignores_err_EncodeArrayOfStaticBytes)
  show "ignores_err (EncodeDynamicBytesOffset blob) enc (le_bytes 4 (offset enc))"
    unfolding EncodeDynamicBytesOffset_def
    by (rule ignores_err_offset_slot [where a = "\<lambda>x. x + of_nat (length blob)", OF _ assms]) simp
  show "ignores_err (EncodeDynamicObjectOffset obj) enc (le_bytes 4 (offset enc))"
    unfolding EncodeDynamicObjectOffset_def
    by (rule ignores_err_offset_slot [where a = "\<lambda>x. x + SizeSSZ obj", OF _ assms]) simp
  show "ignores_err (EncodeSliceOfUint64sOffset ns) enc (le_bytes 4 (offset enc))"
    unfolding EncodeSliceOfUint64sOffset_def
    by (rule ignores_err_offset_slot
          [where a = "\<lambda>x. if length ns > 0 then x + of_nat (length ns * 8) else x", OF _ assms])
       simp
  show "ignores_err (EncodeSliceOfStaticBytesOffset blobs) enc (le_bytes 4 (offset enc))"
    unfolding EncodeSliceOfStaticBytesOffset_def
    by (rule ignores_err_offset_slot
          [where a = "\<lambda>x. if length blobs > 0
                           then x + of_nat (length blobs * length (hd blobs)) else x", OF _ assms])
       simp
  show "ignores_err (EncodeSliceOfDynamicBytesOffset blobs) enc (le_bytes 4 (offset enc))"
    unfolding EncodeSliceOfDynamicBytesOffset_def
    by (rule ignores_err_offset_slot [OF dynamic_bytes_sizes_eq assms])
  show "ignores_err (EncodeSliceOfStaticObjectsOffset objs) enc (le_bytes 4 (offset enc))"
    unfolding EncodeSliceOfStaticObjectsOffset_def
    by (rule ignores_err_offset_slot
          [where a = "\<lambda>x. if length objs > 0
                           then x + of_nat (length objs) * SizeSSZ (hd objs) else x", OF _ assms])
       simp
  show "ignores_err (EncodeSliceOfDynamicObjectsOffset objs) enc (le_bytes 4 (offset enc))"
    unfolding EncodeSliceOfDynamicObjectsOffset_def
    by (rule ignores_err_offset_slot [OF dynamic_objects_sizes_eq assms])
  show "\<forall>d enc'. Define d enc = Inr enc' \<longrightarrow> err enc' = err enc \<and> outWriter enc' = None"
    using buffered_keeps_err [OF assms] by blast
  show "err enc \<noteq> None \<longrightarrow>
            EncodeStaticObject ob enc = Inr enc
            \<and> EncodeDynamicObjectContent ob enc = Inr enc
            \<and> EncodeSliceOfStaticObjectsContent (ob # obs) enc = Inr enc
            \<and> dynamic_objects_content (ob # obs) enc = Inr enc"
    using err_skips_objects by blast
qed

theorem buffered_mode_ignores_err_witness:
  "outWriter marked_buffer_encoder = None
   \<and> err marked_buffer_encoder = Some (WriteError 1)
   \<and> (\<exists>enc'. EncodeUint64 7 marked_buffer_encoder = Inr enc'
        \<and> outDone enc' = [7, 0, 0, 0, 0, 0, 0, 0]
        \<and> outBuffer enc' = []
        \<and> err enc' = Some (WriteError 1))
   \<and> EncodeStaticObject (VoluntaryExit_object \<lparr>Epoch = 7, ValidatorIndex = 9\<rparr>)
        marked_buffer_encoder
      = Inr marked_buffer_encoder"
proof -
  have h1: "outWriter marked_buffer_encoder = None" by code_simp
  have h2: "err marked_buffer_encoder = Some (WriteError 1)" by code_simp
  have h3: "length (le_bytes 8 (7 :: 64 word)) \<le> length (outBuffer marked_buffer_encoder)"
    by code_simp
  have h4: "outDone marked_buffer_encoder @ le_bytes 8 (7 :: 64 word) = [7, 0, 0, 0, 0, 0, 0, 0]"
    by code_simp
  have h5: "drop (length (le_bytes 8 (7 :: 64 word))) (outBuffer marked_buffer_encoder) = []"
    by code_simp
  from buffered_mode_ignores_err [OF h1, of 7]
  have "ignores_err (EncodeUint64 7) marked_buffer_encoder (le_bytes 8 (7 :: 64 word))"
    by (rule conjunct1)
  then have "\<exists>enc'. EncodeUint64 7 marked_buffer_encoder = Inr enc'
        \<and> outDone enc' = [7, 0, 0, 0, 0, 0, 0, 0]
        \<and> outBuffer enc' = []
        \<and> err enc' = Some (WriteError 1)"
    unfolding ignores_err_def using h2 h3 h4 h5 by metis
  moreover have "EncodeStaticObject (VoluntaryExit_object \<lparr>Epoch = 7, ValidatorIndex = 9\<rparr>)
        marked_buffer_encoder = Inr marked_buffer_encoder"
    using buffered_mode_ignores_err
            [OF h1, where ob = "VoluntaryExit_object \<lparr>Epoch = 7, ValidatorIndex = 9\<rparr>"] h2
    by simp
  ultimately show ?thesis using h1 h2 by blast
qed

subsection \<open>Offsets of dynamic fields\<close>

lemma length_le_bytes [simp]: "length (le_bytes n w) = n"
  by (induction n arbitrary: w) simp_all

lemma emits_offset_slot:
  assumes "\<And>e. advance e = e\<lparr>offset := offset e + L\<rparr>"
  shows "emits_offset (offset_slot advance) enc L"
  unfolding emits_offset_def
  by (auto simp: offset_slot_def assms buf_put_def fills_def split: option.splits)

lemma length_concat_uniform:
  "list_all (\<lambda>b. length b = k) blobs \<Longrightarrow> length (concat blobs) = length blobs * k"
  by (induction blobs) simp_all

lemma sum_SizeSSZ_uniform:
  "list_all (\<lambda>obj. SizeSSZ obj = s) objs \<Longrightarrow> sum_list (map SizeSSZ objs) = of_nat (length objs) * s"
  by (induction objs) (simp_all add: algebra_simps)

lemma foldl_dynamic_bytes:
  "foldl (\<lambda>x blob. x + of_nat (4 + length blob)) (x0 :: 32 word) blobs
   = x0 + of_nat (4 * length blobs + length (concat blobs))"
  by (induction blobs arbitrary: x0) (simp_all add: algebra_simps)

lemma foldl_dynamic_objects:
  "foldl (\<lambda>x obj. x + (4 + SizeSSZ obj)) (x0 :: 32 word) objs
   = x0 + (of_nat (4 * length objs) + sum_list (map SizeSSZ objs))"
  by (induction objs arbitrary: x0) (simp_all add: algebra_simps)

lemma emits_EncodeDynamicBytesOffset:
  "emits_offset (EncodeDynamicBytesOffset blob) enc (of_nat (length blob))"
  unfolding EncodeDynamicBytesOffset_def by (rule emits_offset_slot) simp

lemma emits_EncodeDynamicObjectOffset:
  "emits_offset (EncodeDynamicObjectOffset obj) enc (SizeSSZ obj)"
  unfolding EncodeDynamicObjectOffset_def by (rule emits_offset_slot) simp

lemma emits_EncodeSliceOfUint64sOffset:
  "emits_offset (EncodeSliceOfUint64sOffset ns) enc (of_nat (8 * length ns))"
  unfolding EncodeSliceOfUint64sOffset_def by (rule emits_offset_slot) (simp add: mult.commute)

lemma emits_EncodeSliceOfStaticBytesOffset:
  assumes "list_all (\<lambda>b. length b = length (hd blobs)) blobs"
  shows "emits_offset (EncodeSliceOfStaticBytesOffset blobs) enc (of_nat (length (concat blobs)))"
  unfolding EncodeSliceOfStaticBytesOffset_def
  by (rule emits_offset_slot) (simp add: length_concat_uniform [OF assms])

lemma emits_EncodeSliceOfDynamicBytesOffset:
  "emits_offset (EncodeSliceOfDynamicBytesOffset blobs) enc
     (of_nat (4 * length blobs + length (concat blobs)))"
  unfolding EncodeSliceOfDynamicBytesOffset_def
  by (rule emits_offset_slot) (simp only: dynamic_bytes_sizes_eq foldl_dynamic_bytes)

lemma emits_EncodeSliceOfStaticObjectsOffset:
  assumes "list_all (\<lambda>obj. SizeSSZ obj = SizeSSZ (hd objs)) objs"
  shows "emits_offset (EncodeSliceOfStaticObjectsOffset objs) enc (sum_list (map SizeSSZ objs))"
  unfolding EncodeSliceOfStaticObjectsOffset_def
  by (rule emits_offset_slot) (simp add: sum_SizeSSZ_uniform [OF assms])

lemma emits_EncodeSliceOfDynamicObjectsOffset:
  "emits_offset (EncodeSliceOfDynamicObjectsOffset objs) enc
     (of_nat (4 * length objs) + sum_list (map SizeSSZ objs))"
  unfolding EncodeSliceOfDynamicObjectsOffset_def
  by (rule emits_offset_slot) (simp only: dynamic_objects_sizes_eq foldl_dynamic_objects)

lemma streams_written: "streams es X o' es' \<Longrightarrow> written es' = written es @ X"
  by (auto simp: streams_def written_def)

lemma content_lengthI:
  assumes "good es \<Longrightarrow> \<exists>es' o'. f es = Inr es' \<and> streams es X o' es'" and "length X = n"
  shows "content_length f es n"
  unfolding content_length_def using assms streams_written by blast

lemma streams_uint64s:
  "good es \<Longrightarrow> \<exists>es'. EncodeSliceOfUint64sContent ns es = Inr es'
                   \<and> streams es (concat (map (le_bytes 8) ns)) (offset es) es'"
proof (induction ns arbitrary: es)
  case Nil
  then show ?case by (auto simp: EncodeSliceOfUint64sContent_def good_def streams_refl)
next
  case (Cons n ns)
  then obtain w where w: "outWriter es = Some w" and e: "err es = None" by (auto simp: good_def)
  let ?e1 = "stream_write w (le_bytes 8 n) es"
  have s1: "streams es (le_bytes 8 n) (offset es) ?e1" using Cons.prems w by (rule good_write)
  have g1: "good ?e1" using Cons.prems s1 by (rule streams_good)
  from Cons.IH [OF g1] obtain es' where 1: "EncodeSliceOfUint64sContent ns ?e1 = Inr es'"
    and 2: "streams ?e1 (concat (map (le_bytes 8) ns)) (offset ?e1) es'" by blast
  have "EncodeSliceOfUint64sContent (n # ns) es = Inr es'"
    using 1 w e by (auto simp: EncodeSliceOfUint64sContent_def split: option.splits)
  moreover have "streams es (concat (map (le_bytes 8) (n # ns))) (offset es) es'"
    using streams_trans [OF s1 2] by simp
  ultimately show ?case by blast
qed

lemma streams_blobs:
  "good es \<Longrightarrow> \<exists>es'. EncodeArrayOfStaticBytes blobs es = Inr es'
                   \<and> streams es (concat blobs) (offset es) es'"
proof (induction blobs arbitrary: es)
  case Nil
  then show ?case by (auto simp: EncodeArrayOfStaticBytes_def good_def streams_refl)
next
  case (Cons n ns)
  then obtain w where w: "outWriter es = Some w" and e: "err es = None" by (auto simp: good_def)
  let ?e1 = "stream_write w n es"
  have s1: "streams es n (offset es) ?e1" using Cons.prems w by (rule good_write)
  have g1: "good ?e1" using Cons.prems s1 by (rule streams_good)
  from Cons.IH [OF g1] obtain es' where 1: "EncodeArrayOfStaticBytes ns ?e1 = Inr es'"
    and 2: "streams ?e1 (concat ns) (offset ?e1) es'" by blast
  have "EncodeArrayOfStaticBytes (n # ns) es = Inr es'"
    using 1 w e by (auto simp: EncodeArrayOfStaticBytes_def split: option.splits)
  moreover have "streams es (concat (n # ns)) (offset es) es'"
    using streams_trans [OF s1 2] by simp
  ultimately show ?case by blast
qed

lemma streams_item_offsets:
  "good es \<Longrightarrow> \<exists>T o'. streams es T o' (fst (item_offsets_stream blobs es))
                     \<and> length T = 4 * length blobs"
proof (induction blobs arbitrary: es)
  case Nil
  then show ?case using streams_refl by fastforce
next
  case (Cons b bs)
  then obtain w where w: "outWriter es = Some w" and e: "err es = None" by (auto simp: good_def)
  let ?e1 = "stream_write w (le_bytes 4 (offset es)) es"
  let ?e2 = "?e1\<lparr>offset := offset es + of_nat (length b)\<rparr>"
  have s1: "streams es (le_bytes 4 (offset es)) (offset es) ?e1" using Cons.prems w by (rule good_write)
  then have s2: "streams es (le_bytes 4 (offset es)) (offset es + of_nat (length b)) ?e2"
    by (rule streams_set_offset)
  have g2: "good ?e2" using Cons.prems s2 by (rule streams_good)
  from Cons.IH [OF g2] obtain T o' where 1: "streams ?e2 T o' (fst (item_offsets_stream bs ?e2))"
    and 2: "length T = 4 * length bs" by blast
  have "streams es (le_bytes 4 (offset es) @ T) o' (fst (item_offsets_stream (b # bs) es))"
    using streams_trans [OF s2 1] w e by simp
  moreover have "length (le_bytes 4 (offset es) @ T) = 4 * length (b # bs)" using 2 by simp
  ultimately show ?case by blast
qed

lemma content_EncodeDynamicBytesContent:
  "content_length (EncodeDynamicBytesContent blob) es (length blob)"
proof (rule content_lengthI [where X = blob])
  assume g: "good es"
  then obtain w where w: "outWriter es = Some w" and e: "err es = None" by (auto simp: good_def)
  have "streams es blob (offset es) (stream_write w blob es)" using g w by (rule good_write)
  then show "\<exists>es' o'. EncodeDynamicBytesContent blob es = Inr es' \<and> streams es blob o' es'"
    using w e by (auto simp: EncodeDynamicBytesContent_def)
qed simp

lemma content_EncodeSliceOfUint64sContent:
  "content_length (EncodeSliceOfUint64sContent ns) es (8 * length ns)"
proof (rule content_lengthI [where X = "concat (map (le_bytes 8) ns)"])
  show "good es \<Longrightarrow> \<exists>es' o'. EncodeSliceOfUint64sContent ns es = Inr es'
          \<and> streams es (concat (map (le_bytes 8) ns)) o' es'"
    using streams_uint64s by blast
  show "length (concat (map (le_bytes 8) ns)) = 8 * length ns"
    by (induction ns) simp_all
qed

lemma content_EncodeSliceOfStaticBytesContent:
  "content_length (EncodeSliceOfStaticBytesContent blobs) es (length (concat blobs))"
proof (rule content_lengthI [where X = "concat blobs"])
  have "EncodeSliceOfStaticBytesContent blobs = EncodeArrayOfStaticBytes blobs"
    by (rule ext) (simp add: EncodeSliceOfStaticBytesContent_def EncodeArrayOfStaticBytes_def)
  then show "good es \<Longrightarrow> \<exists>es' o'. EncodeSliceOfStaticBytesContent blobs es = Inr es'
          \<and> streams es (concat blobs) o' es'"
    using streams_blobs [of es blobs] by metis
qed simp

lemma content_EncodeSliceOfDynamicBytesContent:
  "content_length (EncodeSliceOfDynamicBytesContent blobs) es
     (4 * length blobs + length (concat blobs))"
  unfolding content_length_def
proof (intro impI)
  assume g: "good es"
  let ?e0 = "es\<lparr>offset := of_nat (4 * length blobs)\<rparr>"
  have g0: "good ?e0" using g by (rule good_set_offset)
  then obtain w where w: "outWriter ?e0 = Some w" by (auto simp: good_def)
  let ?e1 = "fst (item_offsets_stream blobs ?e0)"
  from streams_item_offsets [OF g0, of blobs] obtain T o' where s1: "streams ?e0 T o' ?e1"
    and T: "length T = 4 * length blobs" by blast
  have g1: "good ?e1" using g0 s1 by (rule streams_good)
  from streams_blobs [OF g1, of blobs] obtain es' where 2: "EncodeArrayOfStaticBytes blobs ?e1 = Inr es'"
    and s2: "streams ?e1 (concat blobs) (offset ?e1) es'" by blast
  have ow: "outWriter ?e1 \<noteq> None" using s1 by (rule streams_outWriter)
  have nr: "snd (item_offsets_stream blobs ?e0) = False" using g0 by (rule item_offsets_not_returned)
  have "EncodeSliceOfDynamicBytesContent blobs es = Inr es'"
    using w nr ow 2
    by (auto simp: EncodeSliceOfDynamicBytesContent_def offsetDynamics_def
          EncodeArrayOfStaticBytes_def split: prod.splits option.splits)
  moreover have "streams es (T @ concat blobs) (offset ?e1) es'"
    using streams_trans [OF streams_from_offset [OF s1] s2] .
  ultimately show "\<exists>X es'. EncodeSliceOfDynamicBytesContent blobs es = Inr es' \<and>
       written es' = written es @ X \<and> length X = 4 * length blobs + length (concat blobs)"
    using T streams_written by fastforce
qed

lemma blobs_stream_offset: "offset (blobs_stream blobs e) = offset e"
  by (induction blobs arbitrary: e) (auto split: option.splits)

lemma static_keeps_offset:
  "static_call d \<Longrightarrow> Define d enc = Inr enc' \<Longrightarrow> offset enc' = offset enc"
  "static_calls ds \<Longrightarrow> walk ds enc2 = Inr enc2' \<Longrightarrow> offset enc2' = offset enc2"
proof (induction d and ds arbitrary: enc enc' and enc2 enc2' rule: static_call_static_calls.induct)
  case (1 n)
  then show ?case
    by (auto simp: EncodeUint64_def dest: buf_put_fields split: option.splits if_splits)
next
  case (2 n)
  then show ?case
    by (auto simp: EncodeUint256_def dest: buf_copy_fields split: option.splits if_splits)
next
  case (3 blob)
  then show ?case
    by (auto simp: EncodeStaticBytes_def dest: buf_copy_fields split: option.splits if_splits)
next
  case (4 blobs)
  then show ?case
    by (auto simp: EncodeArrayOfStaticBytes_def blobs_stream_offset blobs_buffer_eq
             split: option.splits if_splits)
next
  case (5 sf st ds)
  then show ?case by (auto split: if_splits)
next
  case (21 d ds)
  from "21.prems" obtain e1 where 1: "Define d enc2 = Inr e1" and 2: "walk ds e1 = Inr enc2'"
    by (auto split: sum.splits)
  have "offset e1 = offset enc2" using "21.IH"(1) "21.prems"(1) 1 by simp
  moreover have "offset enc2' = offset e1" using "21.IH"(2) "21.prems"(1) 2 by simp
  ultimately show ?case by simp
qed simp_all

lemma walk_append:
  "walk (pre @ post) enc = (case walk pre enc of Inl p \<Rightarrow> Inl p | Inr e1 \<Rightarrow> walk post e1)"
  by (induction pre arbitrary: enc) (auto split: sum.splits)

lemma step_written: "enc_step a b \<Longrightarrow> \<exists>Y. written b = written a @ Y"
  by (induction rule: enc_step.induct)
     (auto simp: written_def stream_write_def Write_def split: list.splits option.splits prod.splits)

lemma reach_written: "reach a b \<Longrightarrow> \<exists>Y. written b = written a @ Y"
proof (induction rule: rtranclp_induct)
  case base
  then show ?case by simp
next
  case (step y z)
  then obtain Y1 Y2 where "written y = written a @ Y1" "written z = written y @ Y2"
    using step_written by blast
  then show ?case by simp
qed

lemma sound_first_write:
  assumes "sound enc" and "outWriter enc = Some w"
  shows "written ((stream_write w p enc)\<lparr>offset := x\<rparr>) = written enc @ p"
    and "err enc = None"
  using assms Write_never_fails [of w p]
  by (auto simp: sound_def written_def stream_write_def)

lemma first_slotI:
  assumes "runs f enc"
    and "\<And>enc'. f enc = Inr enc' \<Longrightarrow> \<exists>e2. written e2 = written enc @ le_bytes 4 x \<and> reach e2 enc'"
  shows "first_slot f enc x"
  unfolding first_slot_def
proof (intro conjI allI impI)
  show "outWriter enc \<noteq> None \<Longrightarrow> \<exists>enc'. f enc = Inr enc'" using assms(1) by (simp add: runs_def)
next
  fix enc' assume "f enc = Inr enc'"
  from assms(2) [OF this] obtain e2 where "written e2 = written enc @ le_bytes 4 x" "reach e2 enc'"
    by blast
  then show "\<exists>Y. written enc' = written enc @ le_bytes 4 x @ Y"
    using reach_written [of e2 enc'] by auto
qed

lemma first_slot_EncodeSliceOfDynamicBytesContent:
  assumes "sound enc"
  shows "first_slot (EncodeSliceOfDynamicBytesContent (b # bs)) enc (of_nat (4 * length (b # bs)))"
proof (rule first_slotI [OF runs_EncodeSliceOfDynamicBytesContent])
  fix enc' assume r: "EncodeSliceOfDynamicBytesContent (b # bs) enc = Inr enc'"
  let ?x = "of_nat (4 * length (b # bs)) :: 32 word"
  let ?e0 = "enc\<lparr>offset := ?x\<rparr>"
  show "\<exists>e2. written e2 = written enc @ le_bytes 4 ?x \<and> reach e2 enc'"
  proof (cases "outWriter enc")
    case (Some w)
    let ?e2 = "(stream_write w (le_bytes 4 ?x) ?e0)\<lparr>offset := ?x + of_nat (length b)\<rparr>"
    have s: "sound ?e0" "outWriter ?e0 = Some w" using assms Some by (auto simp: sound_def)
    have w2: "written ?e2 = written enc @ le_bytes 4 ?x"
      using sound_first_write(1) [OF s] by (simp add: written_def Some)
    have e: "err enc = None" using sound_first_write(2) [OF assms Some] .
    have ow: "outWriter (fst (item_offsets_stream bs ?e2)) \<noteq> None"
      using reach_outWriter [OF reach_item_offsets_stream [of ?e2 bs]] by simp
    have io: "item_offsets_stream (b # bs) ?e0 = item_offsets_stream bs ?e2"
      using Some e by simp
    have "EncodeSliceOfDynamicBytesContent (b # bs) enc =
            (case item_offsets_stream (b # bs) ?e0 of
               (e', returned) \<Rightarrow> if returned then Inr e' else Inr (blobs_stream (b # bs) e'))"
      using Some by (simp add: EncodeSliceOfDynamicBytesContent_def offsetDynamics_def Let_def
                          del: item_offsets_stream.simps blobs_stream.simps)
    then have "enc' = fst (item_offsets_stream bs ?e2)
          \<or> enc' = blobs_stream (b # bs) (fst (item_offsets_stream bs ?e2))"
      using r unfolding io by (cases "item_offsets_stream bs ?e2") (auto split: if_splits simp del: blobs_stream.simps)
    moreover have "reach ?e2 (fst (item_offsets_stream bs ?e2))" by (rule reach_item_offsets_stream)
    moreover have "reach (fst (item_offsets_stream bs ?e2)) (blobs_stream (b # bs) (fst (item_offsets_stream bs ?e2)))"
      by (rule reach_blobs_stream)
    ultimately have "reach ?e2 enc'" by auto
    with w2 show ?thesis by blast
  next
    case None
    from r None obtain e1 e3 where 1: "buf_put (le_bytes 4 ?x) ?e0 = Inr e1"
      and 3: "item_offsets_buffer bs (e1\<lparr>offset := offset e1 + of_nat (length b)\<rparr>) = Inr e3"
      and 4: "blobs_buffer (b # bs) e3 = Inr enc'"
      by (auto simp: EncodeSliceOfDynamicBytesContent_def offsetDynamics_def split: sum.splits)
    let ?e2 = "e1\<lparr>offset := offset e1 + of_nat (length b)\<rparr>"
    have o1: "outWriter e1 = None" using buf_put_fields [OF 1] None by simp
    have w2: "written ?e2 = written enc @ le_bytes 4 ?x"
      using 1 None by (auto simp: buf_put_def written_def split: if_splits)
    have "reach ?e2 e3" using 3 by (rule reach_item_offsets_buffer) (simp add: o1)
    moreover have "outWriter e3 = None" using reach_outWriter [OF \<open>reach ?e2 e3\<close>] o1 by simp
    then have "reach e3 enc'" using 4 by (rule reach_blobs_buffer [rotated])
    ultimately have "reach ?e2 enc'" by simp
    with w2 show ?thesis by blast
  qed
qed

lemma first_slot_EncodeSliceOfDynamicObjectsContent:
  assumes "sound enc"
  shows "first_slot (EncodeSliceOfDynamicObjectsContent (obj # objs)) enc (of_nat (4 * length (obj # objs)))"
proof (rule first_slotI [OF runs_all(6)])
  fix enc' assume r: "EncodeSliceOfDynamicObjectsContent (obj # objs) enc = Inr enc'"
  let ?x = "of_nat (4 * length (obj # objs)) :: 32 word"
  let ?e0 = "enc\<lparr>offset := ?x\<rparr>"
  show "\<exists>e2. written e2 = written enc @ le_bytes 4 ?x \<and> reach e2 enc'"
  proof (cases "outWriter enc")
    case (Some w)
    let ?e2 = "(stream_write w (le_bytes 4 ?x) ?e0)\<lparr>offset := ?x + SizeSSZ obj\<rparr>"
    let ?e3 = "fst (object_offsets_stream objs ?e2)"
    have s: "sound ?e0" "outWriter ?e0 = Some w" using assms Some by (auto simp: sound_def)
    have w2: "written ?e2 = written enc @ le_bytes 4 ?x"
      using sound_first_write(1) [OF s] by (simp add: written_def Some)
    have e: "err enc = None" using sound_first_write(2) [OF assms Some] .
    have "enc' = ?e3 \<or> dynamic_objects_content (obj # objs) ?e3 = Inr enc'"
      using r Some e
      by (auto simp: object_offsets_def offsetDynamics_def split: prod.splits if_splits)
    moreover have "reach ?e2 ?e3" by (rule reach_object_offsets_stream)
    moreover have "dynamic_objects_content (obj # objs) ?e3 = Inr enc' \<Longrightarrow> reach ?e3 enc'"
      using runs_all(7) [of "obj # objs" ?e3] by (simp add: runs_def)
    ultimately have "reach ?e2 enc'" by auto
    with w2 show ?thesis by blast
  next
    case None
    from r None obtain e1 e3 where 1: "buf_put (le_bytes 4 ?x) ?e0 = Inr e1"
      and 3: "object_offsets_buffer objs (e1\<lparr>offset := offset e1 + SizeSSZ obj\<rparr>) = Inr e3"
      and 4: "dynamic_objects_content (obj # objs) e3 = Inr enc'"
      by (auto simp: object_offsets_def offsetDynamics_def split: sum.splits)
    let ?e2 = "e1\<lparr>offset := offset e1 + SizeSSZ obj\<rparr>"
    have o1: "outWriter e1 = None" using buf_put_fields [OF 1] None by simp
    have w2: "written ?e2 = written enc @ le_bytes 4 ?x"
      using 1 None by (auto simp: buf_put_def written_def split: if_splits)
    have "reach ?e2 e3" using 3 by (rule reach_object_offsets_buffer) (simp add: o1)
    moreover have "reach e3 enc'" using runs_all(7) [of "obj # objs" e3] 4 by (simp add: runs_def)
    ultimately have "reach ?e2 enc'" by simp
    with w2 show ?thesis by blast
  qed
qed

lemma static_prefix_Inr:
  assumes "static_calls pre" and "walk pre (offsetDynamics sf enc) = Inr enc1"
  shows "offset enc1 = sf"
  using static_keeps_offset(2) [OF assms] by (simp add: offsetDynamics_def)

lemma walk_returns: "outWriter enc \<noteq> None \<Longrightarrow> \<exists>enc1. walk ds enc = Inr enc1"
  using runs_all(2) [of ds enc] by (simp add: runs_def)

lemma foldl_plus_sum:
  "foldl (\<lambda>x b. x + g b) (x0 :: 32 word) bs = x0 + sum_list (map g bs)"
  by (induction bs arbitrary: x0) (simp_all add: algebra_simps)

lemma offset_slot_offset:
  assumes "offset_slot adv enc = Inr enc'"
    and "outWriter enc \<noteq> None \<longrightarrow> err enc = None"
    and "\<And>e. offset (adv e) = offset e + L"
  shows "offset enc' = offset enc + L"
proof (cases "outWriter enc")
  case None
  with assms(1) obtain e1 where 1: "buf_put (le_bytes 4 (offset enc)) enc = Inr e1"
    and 2: "enc' = adv e1"
    by (auto simp: offset_slot_def split: sum.splits)
  have "offset e1 = offset enc" using buf_put_fields [OF 1] by simp
  then show ?thesis unfolding 2 assms(3) by simp
next
  case (Some w)
  then have e: "err enc = None" using assms(2) by simp
  have 2: "enc' = adv (stream_write w (le_bytes 4 (offset enc)) enc)"
    using assms(1) Some e by (simp add: offset_slot_def)
  show ?thesis unfolding 2 assms(3) by simp
qed

lemma offset_call_advances:
  assumes "offset_call d" and "Define d enc = Inr enc'"
    and "outWriter enc \<noteq> None \<longrightarrow> err enc = None"
  shows "offset enc' = offset enc + advance_of d"
proof (cases d)
  case (DefineDynamicBytesOffset blob)
  have "offset_slot (\<lambda>e. e\<lparr>offset := offset e + of_nat (length blob)\<rparr>) enc = Inr enc'"
    using assms(2) unfolding DefineDynamicBytesOffset by (simp add: EncodeDynamicBytesOffset_def)
  from offset_slot_offset [OF this assms(3), of "of_nat (length blob)"]
  show ?thesis unfolding DefineDynamicBytesOffset by simp
next
  case (DefineDynamicObjectOffset obj)
  have "offset_slot (\<lambda>e. e\<lparr>offset := offset e + SizeSSZ obj\<rparr>) enc = Inr enc'"
    using assms(2) unfolding DefineDynamicObjectOffset by (simp add: EncodeDynamicObjectOffset_def)
  from offset_slot_offset [OF this assms(3), of "SizeSSZ obj"]
  show ?thesis unfolding DefineDynamicObjectOffset by simp
next
  case (DefineSliceOfUint64sOffset ns)
  have "offset_slot (\<lambda>e. if length ns > 0 then e\<lparr>offset := offset e + of_nat (length ns * 8)\<rparr>
                          else e) enc = Inr enc'"
    using assms(2) unfolding DefineSliceOfUint64sOffset
    by (simp add: EncodeSliceOfUint64sOffset_def)
  from offset_slot_offset [OF this assms(3), of "advance_of (DefineSliceOfUint64sOffset ns)"]
  show ?thesis unfolding DefineSliceOfUint64sOffset by simp
next
  case (DefineSliceOfStaticBytesOffset blobs)
  have "offset_slot (\<lambda>e. if length blobs > 0
                          then e\<lparr>offset := offset e + of_nat (length blobs * length (hd blobs))\<rparr>
                          else e) enc = Inr enc'"
    using assms(2) unfolding DefineSliceOfStaticBytesOffset
    by (simp add: EncodeSliceOfStaticBytesOffset_def)
  from offset_slot_offset [OF this assms(3), of "advance_of (DefineSliceOfStaticBytesOffset blobs)"]
  show ?thesis unfolding DefineSliceOfStaticBytesOffset by simp
next
  case (DefineSliceOfDynamicBytesOffset blobs)
  have "offset_slot (dynamic_bytes_sizes blobs) enc = Inr enc'"
    using assms(2) unfolding DefineSliceOfDynamicBytesOffset
    by (simp add: EncodeSliceOfDynamicBytesOffset_def)
  from offset_slot_offset [OF this assms(3), of "advance_of (DefineSliceOfDynamicBytesOffset blobs)"]
  show ?thesis unfolding DefineSliceOfDynamicBytesOffset
    by (simp add: dynamic_bytes_sizes_eq foldl_plus_sum)
next
  case (DefineSliceOfStaticObjectsOffset objs)
  have "offset_slot (\<lambda>e. if length objs > 0
                          then e\<lparr>offset := offset e + of_nat (length objs) * SizeSSZ (hd objs)\<rparr>
                          else e) enc = Inr enc'"
    using assms(2) unfolding DefineSliceOfStaticObjectsOffset
    by (simp add: EncodeSliceOfStaticObjectsOffset_def)
  from offset_slot_offset [OF this assms(3), of "advance_of (DefineSliceOfStaticObjectsOffset objs)"]
  show ?thesis unfolding DefineSliceOfStaticObjectsOffset by simp
next
  case (DefineSliceOfDynamicObjectsOffset objs)
  have "offset_slot (dynamic_objects_sizes objs) enc = Inr enc'"
    using assms(2) unfolding DefineSliceOfDynamicObjectsOffset
    by (simp add: EncodeSliceOfDynamicObjectsOffset_def)
  from offset_slot_offset [OF this assms(3), of "advance_of (DefineSliceOfDynamicObjectsOffset objs)"]
  show ?thesis unfolding DefineSliceOfDynamicObjectsOffset
    by (simp add: dynamic_objects_sizes_eq foldl_plus_sum)
qed (use assms(1) in simp_all)

lemma static_call_advance: "static_call d \<Longrightarrow> advance_of d = 0"
  by (cases d) simp_all

lemma fixed_region_offset:
  assumes "fixed_calls ds" and "walk ds enc = Inr enc1"
    and "outWriter enc \<noteq> None \<longrightarrow> err enc1 = None"
  shows "offset enc1 = offset enc + sum_list (map advance_of ds)"
  using assms
proof (induction ds arbitrary: enc)
  case Nil
  then show ?case by simp
next
  case (Cons d ds)
  from Cons.prems(2) obtain e' where 1: "Define d enc = Inr e'" and 2: "walk ds e' = Inr enc1"
    by (auto split: sum.splits)
  have un: "outWriter enc \<noteq> None \<longrightarrow> err enc = None"
  proof (intro impI)
    assume "outWriter enc \<noteq> None"
    then obtain w where w: "outWriter enc = Some w" by auto
    show "err enc = None"
    proof (rule ccontr)
      assume "err enc \<noteq> None"
      then obtain e where e: "err enc = Some e" by auto
      from runs_latched [OF runs_all(2) [of "d # ds" enc] w e] Cons.prems(2)
      have "err enc1 = Some e" by auto
      with Cons.prems(3) w show False by simp
    qed
  qed
  have r: "reach enc e'" using runs_all(1) [of d enc] 1 by (simp add: runs_def)
  have ow: "(outWriter e' = None) = (outWriter enc = None)" using r by (rule reach_outWriter)
  have f: "fixed_calls ds" and k: "static_call d \<or> offset_call d"
    using Cons.prems(1) by (simp_all add: fixed_calls_def)
  have "offset enc1 = offset e' + sum_list (map advance_of ds)"
    using Cons.IH [OF f 2] Cons.prems(3) ow by simp
  moreover have "offset e' = offset enc + advance_of d"
  proof (cases "static_call d")
    case True
    then show ?thesis using static_keeps_offset(1) [OF True 1] static_call_advance by simp
  next
    case False
    then have "offset_call d" using k by simp
    then show ?thesis using 1 un by (rule offset_call_advances)
  qed
  ultimately show ?case by (simp add: algebra_simps)
qed


text \<open>
  Claim C4 as stated is false in its second half. The container below has one
  \<open>uint64\<close> field and one field of dynamic bytes \<open>[1, 2]\<close>, so a fixed region of
  \<open>8 + 4 = 12\<close> bytes. When its fixed region is complete and the emission of the
  dynamic region starts, 12 bytes are written, no error is latched, and
  \<open>enc.offset\<close> is 14, not 12: the offset-phase call has advanced it past the
  content. The encode then succeeds with 14 bytes.
\<close>

theorem dynamic_region_offset_example:
  "map_sum id (\<lambda>e. (written e, err e, offset e))
     (walk [DefineUint64 7, DefineDynamicBytesOffset [1, 2]]
        (offsetDynamics 12 (stream_encoder quiet_sink)))
   = Inr ([7, 0, 0, 0, 0, 0, 0, 0, 12, 0, 0, 0], None, 14)
   \<and> (14 :: 32 word) \<noteq> 12
   \<and> map_sum id (\<lambda>e. (written e, err e))
       (EncodeDynamicObjectContent
          (Object 12 14
             [DefineUint64 7, DefineDynamicBytesOffset [1, 2], DefineDynamicBytesContent [1, 2]])
          (stream_encoder quiet_sink))
     = Inr ([7, 0, 0, 0, 0, 0, 0, 0, 12, 0, 0, 0, 1, 2], None)"
  by code_simp

text \<open>
  Claim C4, amended. Every offset-phase operation emits the four little-endian
  bytes of the current \<open>enc.offset\<close> (the spec's \<open>dynamicOffset\<close>) and then advances
  \<open>enc.offset\<close>: for dynamic bytes, slices of integers, slices of static byte arrays
  (all of one length, as the array type has it) and slices of dynamic bytes by
  exactly the number of bytes the content-phase operation of the same field sends;
  for the object kinds by what the size method \<open>SizeSSZ\<close> of the objects says (for a
  slice of static objects, all of one size, the sum of their sizes; for a slice of
  dynamic objects four bytes per object more). In both modes the operation does so
  unless an error is latched (streaming) or the window has no room for the four
  bytes (buffered).

  \<open>enc.offset\<close> is the size of the fixed region when the emission of a dynamic
  container begins, not when the emission of its dynamic region does:
  \<open>EncodeDynamicObjectContent\<close>, and the loop over the items of a slice of dynamic
  objects, call \<open>offsetDynamics\<close> with \<open>SizeSSZ(true)\<close> before the schema walk, the
  walk of the static calls \<open>pre\<close> that come before the first offset-phase call
  returns (streaming mode) and leaves \<open>enc.offset\<close> at that value, and the operation
  goes on with the rest \<open>post\<close> of the schema from there. So the first placeholder
  of a container is the size of its fixed region. After the calls \<open>fx\<close> of the
  whole fixed region, on an encode with no error latched, \<open>enc.offset\<close> is the size
  of the fixed region plus the advances of all its offset-phase calls. For a list
  of dynamic items, bytes or objects, that is not empty, the first item offset
  emitted on a sound encoder is \<open>4 * len(items)\<close>, the size of the list's own table
  of offsets.
\<close>

theorem offset_phase_emits_and_advances:
  assumes "list_all (\<lambda>b. length b = length (hd sblobs)) sblobs"
    and "list_all (\<lambda>obj. SizeSSZ obj = SizeSSZ (hd sobjs)) sobjs"
    and "static_calls pre"
    and "sound encl"
  shows
    "emits_offset (EncodeDynamicBytesOffset blob) enc (of_nat (length blob))
     \<and> content_length (EncodeDynamicBytesContent blob) es (length blob)
     \<and> emits_offset (EncodeSliceOfUint64sOffset ns) enc (of_nat (8 * length ns))
     \<and> content_length (EncodeSliceOfUint64sContent ns) es (8 * length ns)
     \<and> emits_offset (EncodeSliceOfStaticBytesOffset sblobs) enc (of_nat (length (concat sblobs)))
     \<and> content_length (EncodeSliceOfStaticBytesContent sblobs) es (length (concat sblobs))
     \<and> emits_offset (EncodeSliceOfDynamicBytesOffset blobs) enc
          (of_nat (4 * length blobs + length (concat blobs)))
     \<and> content_length (EncodeSliceOfDynamicBytesContent blobs) es
          (4 * length blobs + length (concat blobs))
     \<and> emits_offset (EncodeDynamicObjectOffset obj) enc (SizeSSZ obj)
     \<and> emits_offset (EncodeSliceOfStaticObjectsOffset sobjs) enc (sum_list (map SizeSSZ sobjs))
     \<and> emits_offset (EncodeSliceOfDynamicObjectsOffset objs) enc
          (of_nat (4 * length objs) + sum_list (map SizeSSZ objs))
     \<and> (outWriter ec \<noteq> None \<longrightarrow> (\<exists>enc1. walk pre (offsetDynamics sf ec) = Inr enc1))
     \<and> (\<forall>enc1. walk pre (offsetDynamics sf ec) = Inr enc1 \<longrightarrow>
            offset enc1 = sf
            \<and> (err ec = None \<longrightarrow>
                 EncodeDynamicObjectContent (Object sf st (pre @ post)) ec = walk post enc1
                 \<and> dynamic_objects_content (Object sf st (pre @ post) # rest) ec
                     = (case walk post enc1 of
                          Inl p \<Rightarrow> Inl p
                        | Inr enc' \<Rightarrow> dynamic_objects_content rest enc')))
     \<and> (\<forall>enc2. fixed_calls fx \<longrightarrow> walk fx (offsetDynamics sf ec) = Inr enc2 \<longrightarrow>
            (outWriter ec \<noteq> None \<longrightarrow> err enc2 = None) \<longrightarrow>
            offset enc2 = sf + sum_list (map advance_of fx)
            \<and> (err ec = None \<longrightarrow>
                 EncodeDynamicObjectContent (Object sf st (fx @ post)) ec = walk post enc2))
     \<and> first_slot (EncodeSliceOfDynamicBytesContent (b # bs)) encl (of_nat (4 * length (b # bs)))
     \<and> first_slot (EncodeSliceOfDynamicObjectsContent (ob # obs)) encl
          (of_nat (4 * length (ob # obs)))"
proof -
  have c1: "outWriter ec \<noteq> None \<longrightarrow> (\<exists>enc1. walk pre (offsetDynamics sf ec) = Inr enc1)"
    using walk_returns [of "offsetDynamics sf ec" pre] by (simp add: offsetDynamics_def)
  have c2: "\<forall>enc1. walk pre (offsetDynamics sf ec) = Inr enc1 \<longrightarrow>
            offset enc1 = sf
            \<and> (err ec = None \<longrightarrow>
                 EncodeDynamicObjectContent (Object sf st (pre @ post)) ec = walk post enc1
                 \<and> dynamic_objects_content (Object sf st (pre @ post) # rest) ec
                     = (case walk post enc1 of
                          Inl p \<Rightarrow> Inl p
                        | Inr enc' \<Rightarrow> dynamic_objects_content rest enc'))"
    using static_prefix_Inr [OF assms(3)] by (simp add: walk_append)
  have c3: "\<forall>enc2. fixed_calls fx \<longrightarrow> walk fx (offsetDynamics sf ec) = Inr enc2 \<longrightarrow>
            (outWriter ec \<noteq> None \<longrightarrow> err enc2 = None) \<longrightarrow>
            offset enc2 = sf + sum_list (map advance_of fx)
            \<and> (err ec = None \<longrightarrow>
                 EncodeDynamicObjectContent (Object sf st (fx @ post)) ec = walk post enc2)"
  proof (intro allI impI)
    fix enc2 :: Encoder
    assume a: "fixed_calls fx" "walk fx (offsetDynamics sf ec) = Inr enc2"
      "outWriter ec \<noteq> None \<longrightarrow> err enc2 = None"
    have "offset enc2 = offset (offsetDynamics sf ec) + sum_list (map advance_of fx)"
      using a(1,2) by (rule fixed_region_offset) (use a(3) in \<open>simp add: offsetDynamics_def\<close>)
    then have 1: "offset enc2 = sf + sum_list (map advance_of fx)"
      by (simp add: offsetDynamics_def)
    have 2: "err ec = None \<longrightarrow>
               EncodeDynamicObjectContent (Object sf st (fx @ post)) ec = walk post enc2"
      using a(2) by (simp add: walk_append)
    from 1 2 show "offset enc2 = sf + sum_list (map advance_of fx)
            \<and> (err ec = None \<longrightarrow>
                 EncodeDynamicObjectContent (Object sf st (fx @ post)) ec = walk post enc2)"
      by (rule conjI)
  qed
  show ?thesis
    by (intro conjI emits_EncodeDynamicBytesOffset content_EncodeDynamicBytesContent
          emits_EncodeSliceOfUint64sOffset content_EncodeSliceOfUint64sContent
          emits_EncodeSliceOfStaticBytesOffset [OF assms(1)]
          content_EncodeSliceOfStaticBytesContent
          emits_EncodeSliceOfDynamicBytesOffset content_EncodeSliceOfDynamicBytesContent
          emits_EncodeDynamicObjectOffset
          emits_EncodeSliceOfStaticObjectsOffset [OF assms(2)]
          emits_EncodeSliceOfDynamicObjectsOffset c1 c2 c3
          first_slot_EncodeSliceOfDynamicBytesContent [OF assms(4)]
          first_slot_EncodeSliceOfDynamicObjectsContent [OF assms(4)])
qed

theorem offset_phase_emits_and_advances_witness:
  "list_all (\<lambda>b. length b = length (hd [[1, 2], [3, 4 :: byte]])) [[1, 2], [3, 4 :: byte]]
   \<and> list_all (\<lambda>obj. SizeSSZ obj = SizeSSZ (hd [Object 8 8 [DefineUint64 5]]))
        [Object 8 8 [DefineUint64 5]]
   \<and> static_calls [DefineUint64 7]
   \<and> sound (stream_encoder quiet_sink)
   \<and> map_sum id (\<lambda>e. (written e, offset e))
        (EncodeDynamicBytesOffset [1, 2] ((stream_encoder quiet_sink)\<lparr>offset := 12\<rparr>))
      = Inr ([12, 0, 0, 0], 14)
   \<and> map_sum id (\<lambda>e. (written e, offset e))
        (EncodeSliceOfStaticBytesOffset [[1, 2], [3, 4]] ((buffer_encoder [9, 9, 9, 9, 9])\<lparr>offset := 12\<rparr>))
      = Inr ([12, 0, 0, 0], 16)
   \<and> (\<exists>X es'. EncodeSliceOfDynamicBytesContent [[16], [32, 33]] (stream_encoder quiet_sink) = Inr es'
         \<and> written es' = X \<and> length X = 11)
   \<and> (\<exists>enc1. walk [DefineUint64 7] (offsetDynamics 12 (stream_encoder quiet_sink)) = Inr enc1
         \<and> offset enc1 = 12
         \<and> EncodeDynamicObjectContent
             (Object 12 14 ([DefineUint64 7]
                @ [DefineDynamicBytesOffset [1, 2], DefineDynamicBytesContent [1, 2]]))
             (stream_encoder quiet_sink)
           = walk [DefineDynamicBytesOffset [1, 2], DefineDynamicBytesContent [1, 2]] enc1)
   \<and> fixed_calls [DefineUint64 7, DefineDynamicBytesOffset [1, 2]]
   \<and> (\<exists>enc2. walk [DefineUint64 7, DefineDynamicBytesOffset [1, 2]]
                 (offsetDynamics 12 (stream_encoder quiet_sink)) = Inr enc2
         \<and> err enc2 = None \<and> offset enc2 = 14)
   \<and> (\<exists>enc' Y. EncodeSliceOfDynamicBytesContent [[16], [32, 33]] (stream_encoder quiet_sink) = Inr enc'
         \<and> written enc' = [8, 0, 0, 0] @ Y)"
proof -
  let ?sb = "[[1, 2], [3, 4 :: byte]]"
  let ?so = "[Object 8 8 [DefineUint64 5]]"
  let ?pre = "[DefineUint64 7]"
  let ?post = "[DefineDynamicBytesOffset [1, 2], DefineDynamicBytesContent [1, 2]]"
  let ?s = "stream_encoder quiet_sink"
  let ?e = "?s\<lparr>offset := 12\<rparr>"
  let ?eb = "(buffer_encoder [9, 9, 9, 9, 9])\<lparr>offset := 12\<rparr>"
  have h1: "list_all (\<lambda>b. length b = length (hd ?sb)) ?sb" by simp
  have h2: "list_all (\<lambda>obj. SizeSSZ obj = SizeSSZ (hd ?so)) ?so" by simp
  have h3: "static_calls ?pre" by simp
  have h4: "sound ?s" by (simp add: sound_def stream_encoder_def quiet_sink_def never_fails_def)
  have g: "good ?s" by (simp add: good_def stream_encoder_def quiet_sink_def never_fails_def)
  note T = offset_phase_emits_and_advances [OF h1 h2 h3 h4]
  have a: "emits_offset (EncodeDynamicBytesOffset [1, 2]) ?e (of_nat (length [1, 2 :: byte]))"
    using T [where enc = ?e and blob = "[1, 2]"] by (rule conjunct1)
  have a1: "outWriter ?e = Some quiet_sink" "err ?e = None" by (simp_all add: stream_encoder_def)
  have a2: "EncodeDynamicBytesOffset [1, 2] ?e
            = Inr ((stream_write quiet_sink (le_bytes 4 (offset ?e)) ?e)
                     \<lparr>offset := offset ?e + of_nat (length [1, 2 :: byte])\<rparr>)"
    using a a1(2) unfolding emits_offset_def a1(1) option.case by (rule mp)
  have a3: "map_sum id (\<lambda>e. (written e, offset e))
              (Inr ((stream_write quiet_sink (le_bytes 4 (offset ?e)) ?e)
                     \<lparr>offset := offset ?e + of_nat (length [1, 2 :: byte])\<rparr>) :: panic + Encoder)
            = Inr ([12, 0, 0, 0], 14)" by code_simp
  have A: "map_sum id (\<lambda>e. (written e, offset e)) (EncodeDynamicBytesOffset [1, 2] ?e)
           = Inr ([12, 0, 0, 0], 14)"
    unfolding a2 by (rule a3)
  have b: "emits_offset (EncodeSliceOfStaticBytesOffset ?sb) ?eb (of_nat (length (concat ?sb)))"
    by (rule T [where enc = ?eb, THEN conjunct2, THEN conjunct2, THEN conjunct2, THEN conjunct2, THEN conjunct1])
  have b1: "outWriter ?eb = None" "4 \<le> length (outBuffer ?eb)" by (simp_all add: buffer_encoder_def)
  have b2: "EncodeSliceOfStaticBytesOffset ?sb ?eb
            = Inr (fills (le_bytes 4 (offset ?eb)) (offset ?eb + of_nat (length (concat ?sb))) ?eb)"
    using b b1(2) unfolding emits_offset_def b1(1) option.case by (rule mp)
  have b3: "map_sum id (\<lambda>e. (written e, offset e))
              (Inr (fills (le_bytes 4 (offset ?eb)) (offset ?eb + of_nat (length (concat ?sb))) ?eb)
                 :: panic + Encoder)
            = Inr ([12, 0, 0, 0], 16)" by code_simp
  have B: "map_sum id (\<lambda>e. (written e, offset e)) (EncodeSliceOfStaticBytesOffset ?sb ?eb)
           = Inr ([12, 0, 0, 0], 16)"
    unfolding b2 by (rule b3)
  have c: "content_length (EncodeSliceOfDynamicBytesContent [[16], [32, 33]]) ?s
             (4 * length [[16], [32, 33 :: byte]] + length (concat [[16], [32, 33 :: byte]]))"
    by (rule T [where es = ?s and blobs = "[[16], [32, 33]]", THEN conjunct2, THEN conjunct2, THEN conjunct2, THEN conjunct2, THEN conjunct2, THEN conjunct2, THEN conjunct2, THEN conjunct1])
  have w0: "written ?s = []" by (simp add: written_def stream_encoder_def quiet_sink_def)
  have C: "\<exists>X es'. EncodeSliceOfDynamicBytesContent [[16], [32, 33]] ?s = Inr es'
         \<and> written es' = X \<and> length X = 11"
    using c g unfolding content_length_def w0 by auto
  have d1: "outWriter ?s \<noteq> None" "err ?s = None" by (simp_all add: stream_encoder_def)
  have D: "\<exists>enc1. walk ?pre (offsetDynamics 12 ?s) = Inr enc1
         \<and> offset enc1 = 12
         \<and> EncodeDynamicObjectContent (Object 12 14 (?pre @ ?post)) ?s = walk ?post enc1"
  proof -
    note T12 = T [where ec = ?s and sf = 12 and st = 14 and post = ?post and rest = "[]", THEN conjunct2, THEN conjunct2, THEN conjunct2, THEN conjunct2, THEN conjunct2, THEN conjunct2, THEN conjunct2, THEN conjunct2, THEN conjunct2, THEN conjunct2, THEN conjunct2, THEN conjunct1]
    note T13 = T [where ec = ?s and sf = 12 and st = 14 and post = ?post and rest = "[]", THEN conjunct2, THEN conjunct2, THEN conjunct2, THEN conjunct2, THEN conjunct2, THEN conjunct2, THEN conjunct2, THEN conjunct2, THEN conjunct2, THEN conjunct2, THEN conjunct2, THEN conjunct2, THEN conjunct1]
    from T12 d1(1) obtain enc1 where 1: "walk ?pre (offsetDynamics 12 ?s) = Inr enc1" by blast
    from T13 [rule_format, OF 1] d1(2) 1 show ?thesis by blast
  qed
  have f: "first_slot (EncodeSliceOfDynamicBytesContent ([16] # [[32, 33]])) ?s
             (of_nat (4 * length ([16 :: byte] # [[32, 33]])))"
    by (rule T [where b = "[16]" and bs = "[[32, 33]]", THEN conjunct2, THEN conjunct2, THEN conjunct2, THEN conjunct2, THEN conjunct2, THEN conjunct2, THEN conjunct2, THEN conjunct2, THEN conjunct2, THEN conjunct2, THEN conjunct2, THEN conjunct2, THEN conjunct2, THEN conjunct2, THEN conjunct1])
  have f1: "le_bytes 4 (of_nat (4 * length ([16 :: byte] # [[32, 33]])) :: 32 word) = [8, 0, 0, 0]"
    by code_simp
  have F: "\<exists>enc' Y. EncodeSliceOfDynamicBytesContent [[16], [32, 33]] ?s = Inr enc'
         \<and> written enc' = [8, 0, 0, 0] @ Y"
    using f d1(1) unfolding first_slot_def f1 w0 by auto
  let ?fx = "[DefineUint64 7, DefineDynamicBytesOffset [1, 2]]"
  have k1: "fixed_calls ?fx" by (simp add: fixed_calls_def)
  have k2: "map_sum id err (walk ?fx (offsetDynamics 12 ?s)) = Inr None" by code_simp
  then obtain enc2 where k3: "walk ?fx (offsetDynamics 12 ?s) = Inr enc2" and k4: "err enc2 = None"
    by (cases "walk ?fx (offsetDynamics 12 ?s)") auto
  have k5: "(12 :: 32 word) + sum_list (map advance_of ?fx) = 14" by simp
  note T14 = T [where ec = ?s and sf = 12 and fx = ?fx, THEN conjunct2, THEN conjunct2, THEN conjunct2, THEN conjunct2, THEN conjunct2, THEN conjunct2, THEN conjunct2, THEN conjunct2, THEN conjunct2, THEN conjunct2, THEN conjunct2, THEN conjunct2, THEN conjunct2, THEN conjunct1]
  from T14 [rule_format, OF k1 k3] k4
  have "offset enc2 = 12 + sum_list (map advance_of ?fx)" by blast
  then have "offset enc2 = 14" unfolding k5 .
  with k3 k4 have G: "\<exists>enc2. walk ?fx (offsetDynamics 12 ?s) = Inr enc2
         \<and> err enc2 = None \<and> offset enc2 = 14" by blast
  show ?thesis using h1 h2 h3 h4 A B C D k1 G F by (intro conjI)
qed

end
